theory Spec2Isabelle
  imports Main
begin

section \<open>Values, user functions and registrations\<close>

text \<open>
  The container of \<^verbatim>\<open>src/index.js\<close> stores arbitrary JavaScript values and calls
  user-supplied functions. Values are a datatype: objects are references compared by
  identity (\<open>Obj r\<close>), the object built by \<^verbatim>\<open>new F()\<close> for the \<open>n\<close>-th
  construction with the function of identity \<open>f\<close> is \<open>Inst f n\<close>, an array is
  its sequence of elements, and \<open>Error m\<close> is an \<^verbatim>\<open>Error\<close> object with message \<open>m\<close>.
  Numbers are integers (no \<^verbatim>\<open>NaN\<close>, no fractions).
\<close>

datatype jsval =
    Undefined
  | Null
  | Bool bool
  | Num int
  | Str string
  | Obj nat
  | Inst nat nat
  | Arr "jsval list"
  | Error string

text \<open>What \<^verbatim>\<open>if (x)\<close> tests.\<close>

fun truthy :: "jsval \<Rightarrow> bool" where
  "truthy Undefined = False"
| "truthy Null = False"
| "truthy (Bool b) = b"
| "truthy (Num n) = (n \<noteq> 0)"
| "truthy (Str s) = (s \<noteq> [])"
| "truthy (Obj r) = True"
| "truthy (Inst f n) = True"
| "truthy (Arr xs) = True"
| "truthy (Error m) = True"

fun is_object :: "jsval \<Rightarrow> bool" where
  "is_object (Obj r) = True"
| "is_object (Inst f n) = True"
| "is_object (Arr xs) = True"
| "is_object (Error m) = True"
| "is_object v = False"

text \<open>The elements of an array value (what \<^verbatim>\<open>apply\<close> and \<^verbatim>\<open>concat\<close> read).\<close>

fun elems :: "jsval \<Rightarrow> jsval list" where
  "elems (Arr xs) = xs"
| "elems v = []"

text \<open>
  A user function is known by an identity \<open>fid\<close>, its formal parameter names (what
  \<^verbatim>\<open>get-parameter-names\<close> reads), its \<^verbatim>\<open>length\<close> property \<open>arity\<close> (the number of
  formal parameters before the first one with a default value or the rest parameter,
  so it may be smaller than the number of names), whether \<^verbatim>\<open>new\<close> may be applied to
  it (\<open>constructible\<close>: not so for an arrow function, a method or an async function),
  its \<^verbatim>\<open>'@require'\<close> attribute when it carries one, and its behaviour: what a call
  does, given the argument values and the number of earlier calls of that function (so
  that \<^verbatim>\<open>() => ++i\<close> and \<^verbatim>\<open>() => ({})\<close> are expressible).

  A synchronous function returns or throws. A function that takes a completion
  callback calls it at once, or defers it by a number of scheduling steps, or throws,
  or never calls it. User functions reach the container only through the
  dependencies they declare: they do not call its methods themselves.
\<close>

datatype sync_effect = Returns jsval | Throws jsval

datatype async_effect =
    Calls jsval jsval
  | Later nat jsval jsval
  | Raises jsval
  | Silent

record 'e func =
  fid :: nat
  params :: "string list"
  arity :: nat
  constructible :: bool
  require :: "string list option"
  behave :: "jsval list \<Rightarrow> nat \<Rightarrow> 'e"

type_synonym sfunc = "sync_effect func"
type_synonym afunc = "async_effect func"

text \<open>\<^verbatim>\<open>getDependenciesNames(func, ignoreLastArg)\<close>; \<^verbatim>\<open>slice(0, -1)\<close> is \<open>butlast\<close>.\<close>

definition getDependenciesNames :: "'e func \<Rightarrow> bool \<Rightarrow> string list" where
  "getDependenciesNames func ignoreLastArg =
     (case require func of
        Some names \<Rightarrow> names
      | None \<Rightarrow> if ignoreLastArg then butlast (params func) else params func)"

text \<open>
  Options and the merged configuration are objects with two optional properties:
  \<open>None\<close> is a property that is absent.
\<close>

record options =
  singleton :: "bool option"
  interfaces :: "string list option"

definition default_register_options :: options where
  "default_register_options = \<lparr>singleton = Some True, interfaces = None\<rparr>"

definition no_options :: options where
  "no_options = \<lparr>singleton = None, interfaces = None\<rparr>"

text \<open>
  Modelled from the spec: \<^verbatim>\<open>xtend\<close> is a package \<^verbatim>\<open>index.js\<close> requires, not among the
  sources; it merges the supplied options over the defaults (\<^verbatim>\<open>xtend(a, b)\<close> has the
  properties of \<open>a\<close>, overridden by those of \<open>b\<close>).
\<close>

definition xtend :: "options \<Rightarrow> options \<Rightarrow> options" where
  "xtend a b =
     \<lparr>singleton = (case singleton b of Some x \<Rightarrow> Some x | None \<Rightarrow> singleton a),
      interfaces = (case interfaces b of Some x \<Rightarrow> Some x | None \<Rightarrow> interfaces a)\<rparr>"

text \<open>\<^verbatim>\<open>if (r.config.singleton)\<close>\<close>

definition config_singleton :: "options \<Rightarrow> bool" where
  "config_singleton config = (singleton config = Some True)"

text \<open>
  The stored \<^verbatim>\<open>asyncFactory\<close> is one of five closures: the factory itself
  (\<^verbatim>\<open>register\<close> with one formal parameter), or a closure over \<^verbatim>\<open>this.call\<close>,
  \<^verbatim>\<open>this.callSync\<close>, \<^verbatim>\<open>this.callCtor\<close>, or over the instance.
\<close>

datatype factory =
    Direct afunc
  | ViaCall afunc
  | ViaCallSync sfunc
  | ViaCallCtor sfunc
  | Instance jsval

record registration =
  factory :: factory
  config :: options

section \<open>Callbacks, the scheduler queue and the state\<close>

text \<open>
  Callbacks are closures; each closure of the source is a constructor holding what it
  captures:
  \<^item> \<open>KTop c\<close>: a callback of the caller of \<^verbatim>\<open>resolve\<close>, which records what it receives;
  \<^item> \<open>KCache name singleton callback\<close>: the arrow function passed to \<^verbatim>\<open>r.factory\<close> in
    \<^verbatim>\<open>resolve\<close>;
  \<^item> \<open>KCallSync\<close>, \<open>KCallCtor\<close>, \<open>KCall\<close>: the functions passed to \<^verbatim>\<open>this.resolve\<close> in
    \<^verbatim>\<open>callSync\<close>, \<^verbatim>\<open>callCtor\<close> and \<^verbatim>\<open>call\<close>;
  \<^item> \<open>KMapItem m i\<close>: the callback that \<^verbatim>\<open>async.map\<close> number \<open>m\<close> hands to its
    iteratee for the item at index \<open>i\<close>.
\<close>

datatype cont =
    KTop nat
  | KCache string bool cont
  | KCallSync sfunc cont
  | KCallCtor sfunc cont
  | KCall afunc cont
  | KMapItem nat nat

text \<open>The bookkeeping of one \<^verbatim>\<open>async.map\<close> call.\<close>

record mapstate =
  results :: "jsval list"
  completed :: nat
  total :: nat
  fired :: bool
  final :: cont

text \<open>
  A scheduled task calls a callback with an error and a value after \<open>delay\<close> further
  scheduling steps; \<^verbatim>\<open>setImmediate(callback, err)\<close> is the delay \<open>0\<close>.
\<close>

datatype task = Task nat cont jsval jsval

text \<open>
  The state: the three maps of the \<^verbatim>\<open>Container\<close>, the live \<^verbatim>\<open>async.map\<close> calls, the
  scheduler queue, and two observations: every call of a user function with its
  arguments, and everything the callers' callbacks received.
\<close>

record state =
  the_registry :: "string \<rightharpoonup> registration"
  the_instances :: "string \<rightharpoonup> jsval"
  the_interfaces :: "string \<rightharpoonup> string list"
  maps :: "mapstate list"
  queue :: "task list"
  calls :: "(nat \<times> jsval list) list"
  log :: "(nat \<times> jsval \<times> jsval) list"

definition Container :: state where
  "Container =
     \<lparr>the_registry = Map.empty, the_instances = Map.empty, the_interfaces = Map.empty,
      maps = [], queue = [], calls = [], log = []\<rparr>"

text \<open>
  \<^verbatim>\<open>resolve\<close> takes a name or an array of names (\<^verbatim>\<open>string | string[]\<close>; arrays
  inside arrays are left out). What a function leaves to be done
  when it returns is a list of pending calls: a call of \<^verbatim>\<open>this.resolve\<close>, a call of a
  callback, or the rest of the loop of an \<^verbatim>\<open>async.map\<close>.
\<close>

datatype target = Name string | Names "string list"

datatype instr =
    IResolve target cont
  | ICallback cont jsval jsval
  | IMapLoop nat "string list" nat

datatype step = Next "instr list" state | Throw jsval state

section \<open>Registration\<close>

datatype 'f arg = NotFunction jsval | Function 'f

text \<open>\<^verbatim>\<open>!name || typeof name !== 'string'\<close> rejects everything but a non-empty string.\<close>

fun valid_name :: "jsval \<Rightarrow> string option" where
  "valid_name (Str n) = (if n = [] then None else Some n)"
| "valid_name v = None"

definition given :: "options option \<Rightarrow> options" where
  "given opts = (case opts of Some x \<Rightarrow> x | None \<Rightarrow> no_options)"

text \<open>The body of the \<^verbatim>\<open>forEach\<close> in \<^verbatim>\<open>_addInterfaceMapping\<close>, for the interface \<open>i\<close>.\<close>

definition add_implementation :: "string \<Rightarrow> state \<Rightarrow> string \<Rightarrow> state" where
  "add_implementation name s i =
     s\<lparr>the_interfaces := (the_interfaces s)
          (i \<mapsto> (case the_interfaces s i of Some xs \<Rightarrow> xs | None \<Rightarrow> []) @ [name])\<rparr>"

definition addInterfaceMapping :: "string \<Rightarrow> string list option \<Rightarrow> state \<Rightarrow> state" where
  "addInterfaceMapping name ifaces s =
     (case ifaces of
        None \<Rightarrow> s
      | Some is \<Rightarrow> foldl (add_implementation name) s is)"

definition store :: "string \<Rightarrow> factory \<Rightarrow> options \<Rightarrow> state \<Rightarrow> state" where
  "store name asyncFactory cfg s =
     addInterfaceMapping name (interfaces cfg)
       (s\<lparr>the_registry := (the_registry s)(name \<mapsto> \<lparr>factory = asyncFactory, config = cfg\<rparr>)\<rparr>)"

definition register :: "jsval \<Rightarrow> afunc arg \<Rightarrow> options option \<Rightarrow> state \<Rightarrow> string + state" where
  "register name fac opts s =
     (case valid_name name of
        None \<Rightarrow> Inl ''name is required''
      | Some n \<Rightarrow>
          (case fac of
             NotFunction v \<Rightarrow> Inl ''the factory function is required''
           | Function f \<Rightarrow>
               if arity f = 0
               then Inl ''the factory function needs at least 1 argument (callback)''
               else Inr (store n (if arity f = 1 then Direct f else ViaCall f)
                           (xtend default_register_options (given opts)) s)))"

definition registerSync :: "jsval \<Rightarrow> sfunc arg \<Rightarrow> options option \<Rightarrow> state \<Rightarrow> string + state" where
  "registerSync name fac opts s =
     (case valid_name name of
        None \<Rightarrow> Inl ''name is required''
      | Some n \<Rightarrow>
          (case fac of
             NotFunction v \<Rightarrow> Inl ''the factory function is required''
           | Function f \<Rightarrow>
               Inr (store n (ViaCallSync f) (xtend default_register_options (given opts)) s)))"

definition registerCtor :: "jsval \<Rightarrow> sfunc arg \<Rightarrow> options option \<Rightarrow> state \<Rightarrow> string + state" where
  "registerCtor name fac opts s =
     (case valid_name name of
        None \<Rightarrow> Inl ''name is required''
      | Some n \<Rightarrow>
          (case fac of
             NotFunction v \<Rightarrow> Inl ''the factory function is required''
           | Function f \<Rightarrow>
               Inr (store n (ViaCallCtor f) (xtend default_register_options (given opts)) s)))"

definition registerInstance :: "jsval \<Rightarrow> jsval \<Rightarrow> options option \<Rightarrow> state \<Rightarrow> string + state" where
  "registerInstance name inst opts s =
     (case valid_name name of
        None \<Rightarrow> Inl ''name is required''
      | Some n \<Rightarrow>
          if inst = Undefined then Inl ''instance is required''
          else Inr (store n (Instance inst) (xtend default_register_options (given opts)) s))"

section \<open>Calling user functions\<close>

definition count_calls :: "nat \<Rightarrow> state \<Rightarrow> nat" where
  "count_calls f s = length (filter (\<lambda>c. fst c = f) (calls s))"

definition record_call :: "nat \<Rightarrow> jsval list \<Rightarrow> state \<Rightarrow> state" where
  "record_call f args s = s\<lparr>calls := calls s @ [(f, args)]\<rparr>"

definition setImmediate :: "cont \<Rightarrow> jsval \<Rightarrow> jsval \<Rightarrow> state \<Rightarrow> state" where
  "setImmediate callback err v s = s\<lparr>queue := queue s @ [Task 0 callback err v]\<rparr>"

text \<open>\<^verbatim>\<open>factory.apply(null, services)\<close> for a synchronous factory.\<close>

definition apply_sync :: "sfunc \<Rightarrow> jsval list \<Rightarrow> state \<Rightarrow> sync_effect \<times> state" where
  "apply_sync f args s = (behave f args (count_calls (fid f) s), record_call (fid f) args s)"

text \<open>
  \<^verbatim>\<open>new Factory()\<close>, where \<^verbatim>\<open>Factory\<close> is the factory bound to the services. On a
  function that is not a constructor \<^verbatim>\<open>new\<close> throws a \<^verbatim>\<open>TypeError\<close> and the function
  does not run. Otherwise the result is the object the constructor returns, and the
  newly constructed object when it returns anything else.
\<close>

definition not_a_constructor :: jsval where
  "not_a_constructor = Error ''Factory is not a constructor''"

definition construct :: "sfunc \<Rightarrow> jsval list \<Rightarrow> state \<Rightarrow> sync_effect \<times> state" where
  "construct f args s =
     (if \<not> constructible f then (Throws not_a_constructor, s)
      else (case behave f args (count_calls (fid f) s) of
              Throws e \<Rightarrow> (Throws e, record_call (fid f) args s)
            | Returns v \<Rightarrow>
                (Returns (if is_object v then v else Inst (fid f) (count_calls (fid f) s)),
                 record_call (fid f) args s)))"

text \<open>\<^verbatim>\<open>factory.apply(null, services.concat([callback]))\<close> and \<^verbatim>\<open>factory(callback)\<close>.\<close>

definition apply_async :: "afunc \<Rightarrow> jsval list \<Rightarrow> cont \<Rightarrow> state \<Rightarrow> step" where
  "apply_async f args callback s =
     (case behave f args (count_calls (fid f) s) of
        Calls err v \<Rightarrow> Next [ICallback callback err v] (record_call (fid f) args s)
      | Later d err v \<Rightarrow>
          Next [] ((record_call (fid f) args s)
                     \<lparr>queue := queue s @ [Task d callback err v]\<rparr>)
      | Raises e \<Rightarrow> Throw e (record_call (fid f) args s)
      | Silent \<Rightarrow> Next [] (record_call (fid f) args s))"

section \<open>The async library's map\<close>

text \<open>
  Modelled from the spec: \<^verbatim>\<open>async.map(coll, iteratee, callback)\<close> belongs to the
  \<^verbatim>\<open>async\<close> package, which \<^verbatim>\<open>index.js\<close> requires and which is not among the
  sources. The spec's words for it: every element is resolved independently, the
  results are in the order of the input, and the first failure fails the whole call,
  the later results being discarded. The package's contract adds what the model needs
  beyond that: the iteratee is started on every item in order within the call; the
  callback of item \<open>i\<close> stores its value at index \<open>i\<close> of the results; the final
  callback is called once, with the first error, or without one when every item is
  done; on an empty collection it is called at once.

  \<^verbatim>\<open>results[index] = v\<close> on a JavaScript array extends the array when the index is
  beyond its end, the slots in between reading as \<^verbatim>\<open>undefined\<close>.
\<close>

definition js_set :: "jsval list \<Rightarrow> nat \<Rightarrow> jsval \<Rightarrow> jsval list" where
  "js_set xs i v =
     (if i < length xs then xs[i := v]
      else xs @ replicate (i - length xs) Undefined @ [v])"

text \<open>
  Modelled from the spec: the final callback of the \<^verbatim>\<open>async.map\<close> number \<open>m\<close>, called
  at most once, with the error and the results.
\<close>

definition fire :: "nat \<Rightarrow> mapstate \<Rightarrow> jsval \<Rightarrow> state \<Rightarrow> step" where
  "fire m ms err s =
     (if fired ms then Next [] (s\<lparr>maps := (maps s)[m := ms]\<rparr>)
      else Next [ICallback (final ms) err (Arr (results ms))]
             (s\<lparr>maps := (maps s)[m := ms\<lparr>fired := True\<rparr>]\<rparr>))"

text \<open>
  Modelled from the spec: the call of \<^verbatim>\<open>async.map\<close>, with \<^verbatim>\<open>this.resolve\<close> as the
  iteratee, which sets up the bookkeeping and leaves the loop over the items pending.
\<close>

definition async_map :: "string list \<Rightarrow> cont \<Rightarrow> state \<Rightarrow> step" where
  "async_map names callback s =
     (let m = length (maps s);
          ms = \<lparr>results = [], completed = 0, total = length names, fired = False,
                final = callback\<rparr>;
          s' = s\<lparr>maps := maps s @ [ms]\<rparr>
      in if names = [] then fire m ms Null s' else Next [IMapLoop m names 0] s')"

text \<open>
  Modelled from the spec: the loop of \<^verbatim>\<open>async.map\<close>, which calls
  \<^verbatim>\<open>this.resolve(item, callback_i)\<close> for the next item and goes on with the rest.
\<close>

fun map_loop :: "nat \<Rightarrow> string list \<Rightarrow> nat \<Rightarrow> state \<Rightarrow> step" where
  "map_loop m [] i s = Next [] s"
| "map_loop m (n # rest) i s =
     Next [IResolve (Name n) (KMapItem m i), IMapLoop m rest (Suc i)] s"

text \<open>
  Modelled from the spec: the callback \<^verbatim>\<open>async.map\<close> hands to the iteratee for item
  \<open>i\<close>. It stores the value, then fails the whole call on an error, or counts the
  item and finishes the call when it was the last one.
\<close>

definition map_item :: "nat \<Rightarrow> nat \<Rightarrow> jsval \<Rightarrow> jsval \<Rightarrow> state \<Rightarrow> step" where
  "map_item m i err v s =
     (if m < length (maps s)
      then (let ms = (maps s ! m)\<lparr>results := js_set (results (maps s ! m)) i v\<rparr>
            in if truthy err then fire m ms err s
               else if Suc (completed ms) = total ms
                    then fire m (ms\<lparr>completed := Suc (completed ms)\<rparr>) Null s
                    else Next [] (s\<lparr>maps := (maps s)[m := ms\<lparr>completed := Suc (completed ms)\<rparr>]\<rparr>))
      else Next [] s)"

section \<open>The resolver\<close>

definition callCtor :: "sfunc \<Rightarrow> cont \<Rightarrow> state \<Rightarrow> step" where
  "callCtor fac callback s =
     Next [IResolve (Names (getDependenciesNames fac False)) (KCallCtor fac callback)] s"

definition callSync :: "sfunc \<Rightarrow> cont \<Rightarrow> state \<Rightarrow> step" where
  "callSync fac callback s =
     Next [IResolve (Names (getDependenciesNames fac False)) (KCallSync fac callback)] s"

definition call :: "afunc \<Rightarrow> cont \<Rightarrow> state \<Rightarrow> step" where
  "call fac callback s =
     Next [IResolve (Names (getDependenciesNames fac True)) (KCall fac callback)] s"

text \<open>Calling the stored \<^verbatim>\<open>asyncFactory\<close> with a callback.\<close>

fun invoke :: "factory \<Rightarrow> cont \<Rightarrow> state \<Rightarrow> step" where
  "invoke (Direct f) callback s = apply_async f [] callback s"
| "invoke (ViaCall f) callback s = call f callback s"
| "invoke (ViaCallSync f) callback s = callSync f callback s"
| "invoke (ViaCallCtor f) callback s = callCtor f callback s"
| "invoke (Instance v) callback s = Next [ICallback callback Null v] s"

definition unknown :: "string \<Rightarrow> jsval" where
  "unknown name = Error (''unknown service or interface '' @ name)"

definition resolve :: "target \<Rightarrow> cont \<Rightarrow> state \<Rightarrow> step" where
  "resolve name callback s =
     (case name of
        Names names \<Rightarrow> async_map names callback s
      | Name n \<Rightarrow>
          (case the_registry s n of
             None \<Rightarrow>
               (case the_interfaces s n of
                  Some impls \<Rightarrow>
                    if impls \<noteq> [] then async_map impls callback s
                    else Next [] (setImmediate callback (unknown n) Undefined s)
                | None \<Rightarrow> Next [] (setImmediate callback (unknown n) Undefined s))
           | Some r \<Rightarrow>
               (let create = invoke (factory r) (KCache n (config_singleton (config r)) callback) s
                in if config_singleton (config r)
                   then (case the_instances s n of
                           Some inst \<Rightarrow>
                             if truthy inst then Next [ICallback callback Null inst] s
                             else create
                         | None \<Rightarrow> create)
                   else create)))"

text \<open>What each callback does when it is called with \<open>(err, v)\<close>.\<close>

fun invoke_callback :: "cont \<Rightarrow> jsval \<Rightarrow> jsval \<Rightarrow> state \<Rightarrow> step" where
  "invoke_callback (KTop c) err v s = Next [] (s\<lparr>log := log s @ [(c, err, v)]\<rparr>)"
| "invoke_callback (KCache name sing callback) err inst s =
     (if truthy err then Next [ICallback callback err Undefined] s
      else Next [ICallback callback Null inst]
             (if sing then s\<lparr>the_instances := (the_instances s)(name \<mapsto> inst)\<rparr> else s))"
| "invoke_callback (KCallCtor fac callback) err services s =
     (if truthy err then Next [ICallback callback err Undefined] s
      else (case construct fac (elems services) s of
              (Returns v, s') \<Rightarrow> Next [ICallback callback Null v] s'
            | (Throws e, s') \<Rightarrow> Throw e s'))"
| "invoke_callback (KCallSync fac callback) err services s =
     (if truthy err then Next [ICallback callback err Undefined] s
      else (case apply_sync fac (elems services) s of
              (Returns v, s') \<Rightarrow> Next [ICallback callback Null v] s'
            | (Throws e, s') \<Rightarrow> Throw e s'))"
| "invoke_callback (KCall fac callback) err services s =
     (if truthy err then Next [ICallback callback err Undefined] s
      else apply_async fac (elems services) callback s)"
| "invoke_callback (KMapItem m i) err v s = map_item m i err v s"

section \<open>Running: the call stack and the scheduler\<close>

fun exec :: "instr \<Rightarrow> state \<Rightarrow> step" where
  "exec (IResolve name callback) s = resolve name callback s"
| "exec (ICallback callback err v) s = invoke_callback callback err v s"
| "exec (IMapLoop m names i) s = map_loop m names i s"

datatype outcome = Returned state | Threw jsval state | OutOfFuel

text \<open>
  One synchronous turn: the pending calls run in order, what a call leaves pending
  runs before the rest, and an exception unwinds everything (nothing in the source
  or in \<^verbatim>\<open>async.map\<close> catches).
\<close>

fun run_sync :: "nat \<Rightarrow> instr list \<Rightarrow> state \<Rightarrow> outcome" where
  "run_sync n [] s = Returned s"
| "run_sync 0 (i # is) s = OutOfFuel"
| "run_sync (Suc n) (i # is) s =
     (case exec i s of
        Throw e s' \<Rightarrow> Threw e s'
      | Next js s' \<Rightarrow> run_sync n (js @ is) s')"

text \<open>
  A task whose delay has not run out is scheduled again: a user function that lets
  several scheduling steps pass before it calls back.
\<close>

fun run_task :: "nat \<Rightarrow> task \<Rightarrow> state \<Rightarrow> outcome" where
  "run_task n (Task 0 callback err v) s = run_sync n [ICallback callback err v] s"
| "run_task n (Task (Suc d) callback err v) s =
     Returned (s\<lparr>queue := queue s @ [Task d callback err v]\<rparr>)"

text \<open>
  The scheduler runs the queued tasks in order until none is left; an exception that
  leaves a task ends the run.
\<close>

fun run_loop :: "nat \<Rightarrow> state \<Rightarrow> outcome" where
  "run_loop 0 s = (if queue s = [] then Returned s else OutOfFuel)"
| "run_loop (Suc n) s =
     (case queue s of
        [] \<Rightarrow> Returned s
      | t # ts \<Rightarrow>
          (case run_task n t (s\<lparr>queue := ts\<rparr>) of
             Returned s' \<Rightarrow> run_loop n s'
           | Threw e s' \<Rightarrow> Threw e s'
           | OutOfFuel \<Rightarrow> OutOfFuel))"

text \<open>
  A call of \<^verbatim>\<open>container.resolve(name, callback)\<close> by a caller whose callback is
  number \<open>c\<close>, up to its return; and the same followed by the scheduler.
\<close>

definition call_resolve :: "nat \<Rightarrow> target \<Rightarrow> nat \<Rightarrow> state \<Rightarrow> outcome" where
  "call_resolve n name c s = run_sync n [IResolve name (KTop c)] s"

definition resolve_and_wait :: "nat \<Rightarrow> target \<Rightarrow> nat \<Rightarrow> state \<Rightarrow> outcome" where
  "resolve_and_wait n name c s =
     (case call_resolve n name c s of
        Returned s' \<Rightarrow> run_loop n s'
      | Threw e s' \<Rightarrow> Threw e s'
      | OutOfFuel \<Rightarrow> OutOfFuel)"

section \<open>What a run executes\<close>

text \<open>
  The calls a run makes, in the order in which it makes them: \<open>trace_sync\<close> lists the
  pending calls that \<open>run_sync\<close> executes (the one that throws included),
  \<open>trace_task\<close> and \<open>trace_loop\<close> do the same for \<open>run_task\<close> and \<open>run_loop\<close>, and
  \<open>trace_resolve\<close> for \<open>resolve_and_wait\<close>.
\<close>

fun trace_sync :: "nat \<Rightarrow> instr list \<Rightarrow> state \<Rightarrow> instr list" where
  "trace_sync n [] s = []"
| "trace_sync 0 (i # is) s = []"
| "trace_sync (Suc n) (i # is) s =
     i # (case exec i s of
            Throw e s' \<Rightarrow> []
          | Next js s' \<Rightarrow> trace_sync n (js @ is) s')"

fun trace_task :: "nat \<Rightarrow> task \<Rightarrow> state \<Rightarrow> instr list" where
  "trace_task n (Task 0 callback err v) s = trace_sync n [ICallback callback err v] s"
| "trace_task n (Task (Suc d) callback err v) s = []"

fun trace_loop :: "nat \<Rightarrow> state \<Rightarrow> instr list" where
  "trace_loop 0 s = []"
| "trace_loop (Suc n) s =
     (case queue s of
        [] \<Rightarrow> []
      | t # ts \<Rightarrow>
          trace_task n t (s\<lparr>queue := ts\<rparr>) @
          (case run_task n t (s\<lparr>queue := ts\<rparr>) of
             Returned s' \<Rightarrow> trace_loop n s'
           | Threw e s' \<Rightarrow> []
           | OutOfFuel \<Rightarrow> []))"

definition trace_resolve :: "nat \<Rightarrow> target \<Rightarrow> nat \<Rightarrow> state \<Rightarrow> instr list" where
  "trace_resolve n name c s =
     trace_sync n [IResolve name (KTop c)] s @
     (case call_resolve n name c s of
        Returned s' \<Rightarrow> trace_loop n s'
      | Threw e s' \<Rightarrow> []
      | OutOfFuel \<Rightarrow> [])"

text \<open>
  Where a run stops. With the fuel it is given a run returns, throws, or stops with
  calls still pending; \<open>stop_sync\<close> gives the calls that \<open>run_sync\<close> has still pending
  in the turn when it stops (none when it has returned or thrown) and the state it has
  reached by then, \<open>stop_task\<close> and \<open>stop_loop\<close> do the same for \<open>run_task\<close> and
  \<open>run_loop\<close>, and \<open>still_pending\<close> and \<open>state_reached\<close> for \<open>resolve_and_wait\<close>.
\<close>

fun stop_sync :: "nat \<Rightarrow> instr list \<Rightarrow> state \<Rightarrow> instr list \<times> state" where
  "stop_sync n [] s = ([], s)"
| "stop_sync 0 (i # is) s = (i # is, s)"
| "stop_sync (Suc n) (i # is) s =
     (case exec i s of
        Throw e s' \<Rightarrow> ([], s')
      | Next js s' \<Rightarrow> stop_sync n (js @ is) s')"

fun stop_task :: "nat \<Rightarrow> task \<Rightarrow> state \<Rightarrow> instr list \<times> state" where
  "stop_task n (Task 0 callback err v) s = stop_sync n [ICallback callback err v] s"
| "stop_task n (Task (Suc d) callback err v) s =
     ([], s\<lparr>queue := queue s @ [Task d callback err v]\<rparr>)"

fun stop_loop :: "nat \<Rightarrow> state \<Rightarrow> instr list \<times> state" where
  "stop_loop 0 s = ([], s)"
| "stop_loop (Suc n) s =
     (case queue s of
        [] \<Rightarrow> ([], s)
      | t # ts \<Rightarrow>
          (case run_task n t (s\<lparr>queue := ts\<rparr>) of
             Returned s' \<Rightarrow> stop_loop n s'
           | Threw e s' \<Rightarrow> stop_task n t (s\<lparr>queue := ts\<rparr>)
           | OutOfFuel \<Rightarrow> stop_task n t (s\<lparr>queue := ts\<rparr>)))"

definition stop_resolve :: "nat \<Rightarrow> target \<Rightarrow> nat \<Rightarrow> state \<Rightarrow> instr list \<times> state" where
  "stop_resolve n name c s =
     (case call_resolve n name c s of
        Returned s' \<Rightarrow> stop_loop n s'
      | Threw e s' \<Rightarrow> stop_sync n [IResolve name (KTop c)] s
      | OutOfFuel \<Rightarrow> stop_sync n [IResolve name (KTop c)] s)"

definition still_pending :: "nat \<Rightarrow> target \<Rightarrow> nat \<Rightarrow> state \<Rightarrow> instr list" where
  "still_pending n name c s = fst (stop_resolve n name c s)"

definition state_reached :: "nat \<Rightarrow> target \<Rightarrow> nat \<Rightarrow> state \<Rightarrow> state" where
  "state_reached n name c s = snd (stop_resolve n name c s)"

text \<open>
  How the items of one \<^verbatim>\<open>async.map\<close> call fared. \<^verbatim>\<open>async.map\<close> hands
  \<^verbatim>\<open>this.resolve\<close> the item and a callback of its own; the resolution of the item
  succeeds with \<open>v\<close> when it calls that callback with no error and \<open>v\<close>, and fails
  with \<open>err\<close> when it calls it with \<open>err\<close>. \<open>item_calls m T\<close> lists the calls of the
  item callbacks of the \<^verbatim>\<open>async.map\<close> number \<open>m\<close> among the calls \<open>T\<close>, each as
  the index of the item, the error and the value.
\<close>

fun item_event :: "nat \<Rightarrow> instr \<Rightarrow> (nat \<times> jsval \<times> jsval) list" where
  "item_event m (ICallback (KMapItem m' i) err v) = (if m' = m then [(i, err, v)] else [])"
| "item_event m j = []"

definition item_calls :: "nat \<Rightarrow> instr list \<Rightarrow> (nat \<times> jsval \<times> jsval) list" where
  "item_calls m T = concat (map (item_event m) T)"

text \<open>
  \<open>item_values m k T = Some vs\<close>: each of the \<open>k\<close> items of the \<^verbatim>\<open>async.map\<close> number
  \<open>m\<close> resolved successfully, that is, the callback of each index below \<open>k\<close> was
  called exactly once, without an error, and no other item callback of that map was
  called; \<open>vs\<close> lists the values received, by index.
\<close>

fun values_upto :: "(nat \<times> jsval \<times> jsval) list \<Rightarrow> nat \<Rightarrow> jsval list option" where
  "values_upto E 0 = Some []"
| "values_upto E (Suc k) =
     (case values_upto E k of
        None \<Rightarrow> None
      | Some vs \<Rightarrow>
          (case filter (\<lambda>ev. fst ev = k) E of
             [(i, err, v)] \<Rightarrow> if truthy err then None else Some (vs @ [v])
           | _ \<Rightarrow> None))"

definition item_values :: "nat \<Rightarrow> nat \<Rightarrow> instr list \<Rightarrow> jsval list option" where
  "item_values m k T =
     (if length (item_calls m T) = k then values_upto (item_calls m T) k else None)"

text \<open>
  \<open>first_failure m k T = Some err\<close>: among the \<open>k\<close> items of the \<^verbatim>\<open>async.map\<close> number
  \<open>m\<close>, one failed with \<open>err\<close> before all of them had succeeded, and it was the first
  to fail.
\<close>

fun first_error :: "nat \<Rightarrow> (nat \<times> jsval \<times> jsval) list \<Rightarrow> jsval option" where
  "first_error 0 E = None"
| "first_error (Suc k) [] = None"
| "first_error (Suc k) ((i, err, v) # E) = (if truthy err then Some err else first_error k E)"

definition first_failure :: "nat \<Rightarrow> nat \<Rightarrow> instr list \<Rightarrow> jsval option" where
  "first_failure m k T = first_error k (item_calls m T)"

text \<open>
  Whether the container already holds the caller's callback number \<open>c\<close>: a callback
  of the container leads to it when, stripped of the closures of \<^verbatim>\<open>resolve\<close>,
  \<^verbatim>\<open>call\<close>, \<^verbatim>\<open>callSync\<close> and \<^verbatim>\<open>callCtor\<close> around it, it is that callback. \<open>held c s\<close>
  counts the scheduled tasks and the \<^verbatim>\<open>async.map\<close> calls not yet finished that lead
  to \<open>c\<close>; it is \<open>0\<close> for a callback the caller has just created. \<open>received c new\<close>
  is what the callback \<open>c\<close> received among the deliveries \<open>new\<close>.
\<close>

fun root_is :: "nat \<Rightarrow> cont \<Rightarrow> bool" where
  "root_is c (KTop c') = (c' = c)"
| "root_is c (KCache n b k) = root_is c k"
| "root_is c (KCallSync f k) = root_is c k"
| "root_is c (KCallCtor f k) = root_is c k"
| "root_is c (KCall f k) = root_is c k"
| "root_is c (KMapItem m i) = False"

fun task_holds :: "nat \<Rightarrow> task \<Rightarrow> nat" where
  "task_holds c (Task d k err v) = (if root_is c k then 1 else 0)"

definition map_holds :: "nat \<Rightarrow> mapstate \<Rightarrow> nat" where
  "map_holds c ms = (if \<not> fired ms \<and> root_is c (final ms) then 1 else 0)"

definition held :: "nat \<Rightarrow> state \<Rightarrow> nat" where
  "held c s = sum_list (map (task_holds c) (queue s)) + sum_list (map (map_holds c) (maps s))"

definition received :: "nat \<Rightarrow> (nat \<times> jsval \<times> jsval) list \<Rightarrow> (nat \<times> jsval \<times> jsval) list" where
  "received c new = filter (\<lambda>x. fst x = c) new"

section \<open>Example containers\<close>

text \<open>Reading off what a registration call or a run leaves behind.\<close>

definition accepted :: "string + state \<Rightarrow> state" where
  "accepted r = (case r of Inr s \<Rightarrow> s | Inl e \<Rightarrow> Container)"

definition after :: "outcome \<Rightarrow> state" where
  "after r = (case r of Returned s \<Rightarrow> s | Threw e s \<Rightarrow> s | OutOfFuel \<Rightarrow> Container)"

definition thrown :: "outcome \<Rightarrow> jsval option" where
  "thrown r = (case r of Returned s \<Rightarrow> None | Threw e s \<Rightarrow> Some e | OutOfFuel \<Rightarrow> None)"

text \<open>
  The README's counter: \<^verbatim>\<open>var i = start - 1; container.registerSync('service', () => ++i)\<close>.
\<close>

definition counting_from :: "int \<Rightarrow> sfunc" where
  "counting_from start =
     \<lparr>fid = 1, params = [], arity = 0, constructible = False, require = None,
      behave = (\<lambda>args n. Returns (Num (start + int n)))\<rparr>"

definition readme_singleton :: state where
  "readme_singleton =
     accepted (registerSync (Str ''service'') (Function (counting_from 1)) None Container)"

definition readme_resolved :: state where
  "readme_resolved = after (resolve_and_wait 10 (Name ''service'') 1 readme_singleton)"

definition readme_replaced :: state where
  "readme_replaced =
     store ''service'' (Instance (Num 5)) (xtend default_register_options (given None))
       readme_resolved"

text \<open>
  A counter that starts at zero: \<^verbatim>\<open>var i = 0; container.registerSync('service', () => i++)\<close>,
  resolved twice, the second call made after the first has completed.
\<close>

definition zero_singleton :: state where
  "zero_singleton =
     accepted (registerSync (Str ''service'') (Function (counting_from 0)) None Container)"

definition zero_first :: state where
  "zero_first = after (resolve_and_wait 10 (Name ''service'') 1 zero_singleton)"

definition zero_second :: state where
  "zero_second = after (resolve_and_wait 10 (Name ''service'') 2 zero_first)"

text \<open>\<^verbatim>\<open>container.registerSync('broken', () => { throw new Error('boom') })\<close>\<close>

definition failing_factory :: sfunc where
  "failing_factory =
     \<lparr>fid = 2, params = [], arity = 0, constructible = False, require = None,
      behave = (\<lambda>args n. Throws (Error ''boom''))\<rparr>"

definition failing_service :: state where
  "failing_service =
     accepted (registerSync (Str ''broken'') (Function failing_factory) None Container)"

text \<open>
  \<^verbatim>\<open>registerInstance('settings', o1)\<close>, a resolution, then
  \<^verbatim>\<open>registerInstance('settings', o2)\<close> for the same name.
\<close>

definition settings_first :: state where
  "settings_first =
     after (resolve_and_wait 10 (Name ''settings'') 1
       (accepted (registerInstance (Str ''settings'') (Obj 1) None Container)))"

definition settings_replaced :: state where
  "settings_replaced =
     store ''settings'' (Instance (Obj 2)) (xtend default_register_options (given None))
       settings_first"

text \<open>A transient instance: \<^verbatim>\<open>registerInstance('settings', o7, { singleton: false })\<close>.\<close>

definition settings_transient :: state where
  "settings_transient =
     accepted (registerInstance (Str ''settings'') (Obj 7)
       (Some \<lparr>singleton = Some False, interfaces = None\<rparr>) Container)"

text \<open>The README's counter resolved once, then \<^verbatim>\<open>registerInstance('service', null)\<close>.\<close>

definition service_nulled :: state where
  "service_nulled =
     store ''service'' (Instance Null) (xtend default_register_options (given None))
       readme_resolved"

definition fresh_null :: state where
  "fresh_null =
     store ''flag'' (Instance Null) (xtend default_register_options (given None)) Container"

text \<open>
  Three services whose factories call back after two, one and no further scheduling
  step: \<^verbatim>\<open>c\<close> completes first and \<^verbatim>\<open>a\<close> last.
\<close>

definition later_factory :: "nat \<Rightarrow> nat \<Rightarrow> jsval \<Rightarrow> afunc" where
  "later_factory f d v =
     \<lparr>fid = f, params = [''callback''], arity = 1, constructible = True, require = None,
      behave = (\<lambda>args n. Later d Null v)\<rparr>"

definition three_services :: state where
  "three_services =
     accepted (register (Str ''c'') (Function (later_factory 13 0 (Obj 3))) None
    (accepted (register (Str ''b'') (Function (later_factory 12 1 (Obj 2))) None
    (accepted (register (Str ''a'') (Function (later_factory 11 2 (Obj 1))) None
       Container)))))"

definition three_values :: "string \<Rightarrow> jsval" where
  "three_values n = (if n = ''a'' then Obj 1 else if n = ''b'' then Obj 2 else Obj 3)"

text \<open>
  The README's logger streams: one implementation of \<^verbatim>\<open>loggerStream\<close>, then a second
  one.
\<close>

definition as_stream :: "options option" where
  "as_stream = Some \<lparr>singleton = None, interfaces = Some [''loggerStream'']\<rparr>"

definition one_stream :: state where
  "one_stream = accepted (registerInstance (Str ''stdout_stream'') (Obj 2) as_stream Container)"

definition two_streams :: state where
  "two_streams =
     accepted (register (Str ''file_stream'') (Function (later_factory 21 1 (Obj 1)))
       as_stream one_stream)"

text \<open>
  Factories that hand back the dependencies they were called with and carry
  \<^verbatim>\<open>'@require' = ['settings']\<close>: one with the formal parameters \<^verbatim>\<open>(x, callback)\<close>,
  one with the single formal parameter \<^verbatim>\<open>(x)\<close>, and a synchronous one with \<^verbatim>\<open>(x)\<close>.
\<close>

definition echo_async :: "string list \<Rightarrow> afunc" where
  "echo_async ps =
     \<lparr>fid = 31, params = ps, arity = length ps, constructible = True,
      require = Some [''settings''],
      behave = (\<lambda>args n. Calls Null (Arr args))\<rparr>"

definition echo_sync :: sfunc where
  "echo_sync =
     \<lparr>fid = 32, params = [''x''], arity = 1, constructible = True,
      require = Some [''settings''],
      behave = (\<lambda>args n. Returns (Arr args))\<rparr>"

definition with_settings :: state where
  "with_settings = accepted (registerInstance (Str ''settings'') (Obj 1) None Container)"


definition require_two_params :: state where
  "require_two_params =
     accepted (register (Str ''svc'') (Function (echo_async [''x'', ''callback''])) None
       with_settings)"

definition require_sync :: state where
  "require_sync = accepted (registerSync (Str ''svc'') (Function echo_sync) None with_settings)"

text \<open>
  A container with services of every kind: the registered instance \<^verbatim>\<open>settings\<close>, the
  constructor \<^verbatim>\<open>function Db(settings) {}\<close> registered with \<^verbatim>\<open>registerCtor\<close>, a factory
  that calls back one scheduling step later, the README's counter registered as a
  transient, and the interface \<^verbatim>\<open>loggerStream\<close> with one implementation.
\<close>

definition db_ctor :: sfunc where
  "db_ctor =
     \<lparr>fid = 41, params = [''settings''], arity = 1, constructible = True, require = None,
      behave = (\<lambda>args n. Returns Undefined)\<rparr>"

definition transient :: "options option" where
  "transient = Some \<lparr>singleton = Some False, interfaces = None\<rparr>"

definition mixed_services :: state where
  "mixed_services =
     accepted (registerSync (Str ''counter'') (Function (counting_from 1)) transient
    (accepted (register (Str ''clock'') (Function (later_factory 42 1 (Obj 5))) None
    (accepted (registerCtor (Str ''db'') (Function db_ctor) None
    (accepted (registerInstance (Str ''settings'') (Obj 1) None one_stream)))))))"

definition mixed_names :: "string list" where
  "mixed_names = [''db'', ''loggerStream'', ''clock'', ''counter'']"

text \<open>
  The README's \<^verbatim>\<open>file_stream\<close>, \<^verbatim>\<open>registerSync('file_stream', (settings) => ..., {interfaces:
  ['loggerStream']})\<close>, in a container where \<^verbatim>\<open>settings\<close> is not registered.
\<close>

definition file_stream_factory :: sfunc where
  "file_stream_factory =
     \<lparr>fid = 22, params = [''settings''], arity = 1, constructible = False, require = None,
      behave = (\<lambda>args n. Returns (Obj 1))\<rparr>"

definition broken_streams :: state where
  "broken_streams =
     accepted (registerSync (Str ''file_stream'') (Function file_stream_factory) as_stream
       one_stream)"

text \<open>\<^verbatim>\<open>container.registerSync('svc', (missing) => o9)\<close>, and nothing else registered.\<close>

definition needs_missing :: sfunc where
  "needs_missing =
     \<lparr>fid = 3, params = [''missing''], arity = 1, constructible = False, require = None,
      behave = (\<lambda>args n. Returns (Obj 9))\<rparr>"

definition missing_dependency :: state where
  "missing_dependency =
     accepted (registerSync (Str ''svc'') (Function needs_missing) None Container)"

section \<open>Vocabulary of the proofs\<close>

text \<open>The state a step leaves, whether it returns or throws.\<close>

definition step_state :: "step \<Rightarrow> state" where
  "step_state r = (case r of Next js s \<Rightarrow> s | Throw e s \<Rightarrow> s)"

text \<open>
  The pending calls that write to the instance cache: the callback that \<^verbatim>\<open>resolve\<close>
  passes to the factory of a singleton, when it is called without an error.
\<close>

fun cache_write :: "instr \<Rightarrow> (string \<times> jsval) option" where
  "cache_write (ICallback (KCache n sing k) err v) =
     (if sing \<and> \<not> truthy err then Some (n, v) else None)"
| "cache_write i = None"

text \<open>Same registry, same interface index, and no cached instance lost.\<close>

definition unchanged :: "state \<Rightarrow> state \<Rightarrow> bool" where
  "unchanged s s' \<longleftrightarrow>
     the_registry s' = the_registry s \<and> the_interfaces s' = the_interfaces s \<and>
     dom (the_instances s) \<subseteq> dom (the_instances s')"

text \<open>
  The names registered as singletons, and the callbacks, pending calls and states in
  which every cache-writing callback of \<^verbatim>\<open>resolve\<close> is for such a name.
\<close>

definition singleton_names :: "state \<Rightarrow> string \<Rightarrow> bool" where
  "singleton_names s n \<longleftrightarrow> (\<exists>r. the_registry s n = Some r \<and> config_singleton (config r))"

fun cont_ok :: "(string \<Rightarrow> bool) \<Rightarrow> cont \<Rightarrow> bool" where
  "cont_ok S (KTop c) = True"
| "cont_ok S (KCache n b k) = ((b \<longrightarrow> S n) \<and> cont_ok S k)"
| "cont_ok S (KCallSync f k) = cont_ok S k"
| "cont_ok S (KCallCtor f k) = cont_ok S k"
| "cont_ok S (KCall f k) = cont_ok S k"
| "cont_ok S (KMapItem m i) = True"

fun instr_ok :: "(string \<Rightarrow> bool) \<Rightarrow> instr \<Rightarrow> bool" where
  "instr_ok S (IResolve name k) = cont_ok S k"
| "instr_ok S (ICallback k err v) = cont_ok S k"
| "instr_ok S (IMapLoop m ns i) = True"

fun task_ok :: "(string \<Rightarrow> bool) \<Rightarrow> task \<Rightarrow> bool" where
  "task_ok S (Task d k err v) = cont_ok S k"

definition pending_ok :: "(string \<Rightarrow> bool) \<Rightarrow> state \<Rightarrow> bool" where
  "pending_ok S s \<longleftrightarrow>
     (\<forall>ms\<in>set (maps s). \<not> fired ms \<longrightarrow> cont_ok S (final ms)) \<and>
     (\<forall>t\<in>set (queue s). task_ok S t)"

text \<open>The cache differs only at names in \<open>S\<close>.\<close>

definition cache_within :: "(string \<Rightarrow> bool) \<Rightarrow> state \<Rightarrow> state \<Rightarrow> bool" where
  "cache_within S s s' \<longleftrightarrow> (\<forall>n. the_instances s' n \<noteq> the_instances s n \<longrightarrow> S n)"

text \<open>What a step leaves pending, and the state it leaves, are in order again.\<close>

definition step_ok :: "(string \<Rightarrow> bool) \<Rightarrow> state \<Rightarrow> step \<Rightarrow> bool" where
  "step_ok S s r \<longleftrightarrow>
     (case r of
        Next js s' \<Rightarrow> (\<forall>j\<in>set js. instr_ok S j) \<and> pending_ok S s' \<and> cache_within S s s'
      | Throw e s' \<Rightarrow> pending_ok S s' \<and> cache_within S s s')"

text \<open>
  Running without counting fuel: \<open>advances is s is' s'\<close> when, within one turn, the
  pending calls \<open>is\<close> in state \<open>s\<close> lead to the pending calls \<open>is'\<close> in state \<open>s'\<close>,
  whatever is pending behind them; \<open>settles s s'\<close> when the scheduler, started in \<open>s\<close>,
  runs out of tasks in \<open>s'\<close>. Both hold for every sufficient amount of fuel.
\<close>

definition advances :: "instr list \<Rightarrow> state \<Rightarrow> instr list \<Rightarrow> state \<Rightarrow> bool" where
  "advances is s is' s' \<longleftrightarrow>
     (\<exists>N. \<forall>m rest. run_sync (N + m) (is @ rest) s = run_sync m (is' @ rest) s')"

definition settles :: "state \<Rightarrow> state \<Rightarrow> bool" where
  "settles s s' \<longleftrightarrow> (\<exists>N. \<forall>m. run_loop (N + m) s = Returned s')"

text \<open>The pending calls run to the end of their turn, and then the scheduler settles.\<close>

definition finishes :: "instr list \<Rightarrow> state \<Rightarrow> state \<Rightarrow> bool" where
  "finishes is s s' \<longleftrightarrow> (\<exists>u. advances is s [] u \<and> settles u s')"

text \<open>
  A factory that resolves nothing else and always produces \<open>v\<close>: a registered instance,
  a callback-taking factory stored as it is that calls back without an error, at once
  or after any number of scheduling steps, or a synchronous factory without
  dependencies that returns \<open>v\<close>.
\<close>

fun produces :: "factory \<Rightarrow> jsval \<Rightarrow> bool" where
  "produces (Instance w) v = (w = v)"
| "produces (Direct f) v =
     (\<forall>args n. \<exists>d e. \<not> truthy e \<and>
        (behave f args n = Calls e v \<or> behave f args n = Later d e v))"
| "produces (ViaCallSync f) v =
     (getDependenciesNames f False = [] \<and> (\<forall>args n. behave f args n = Returns v))"
| "produces (ViaCall f) v = False"
| "produces (ViaCallCtor f) v = False"

text \<open>
  The name \<open>n\<close> is registered with such a factory, and a truthy instance cached for
  it as a singleton is that same \<open>v\<close>.
\<close>

definition serves :: "state \<Rightarrow> string \<Rightarrow> jsval \<Rightarrow> bool" where
  "serves s n v \<longleftrightarrow>
     (\<exists>r. the_registry s n = Some r \<and> produces (factory r) v \<and>
          (config_singleton (config r) \<longrightarrow>
             (\<forall>w. the_instances s n = Some w \<longrightarrow> truthy w \<longrightarrow> w = v)))"

text \<open>
  What the resolution of one such name changes: nothing in the registry, the
  interface index and the log; \<^verbatim>\<open>async.map\<close> calls may have been added; the cache
  may have received \<open>v\<close> for \<open>n\<close>.
\<close>

definition leaf_step :: "string \<Rightarrow> jsval \<Rightarrow> state \<Rightarrow> state \<Rightarrow> bool" where
  "leaf_step n v s s' \<longleftrightarrow>
     the_registry s' = the_registry s \<and> the_interfaces s' = the_interfaces s \<and>
     log s' = log s \<and> take (length (maps s)) (maps s') = maps s \<and>
     length (maps s) \<le> length (maps s') \<and>
     (the_instances s' = the_instances s \<or> the_instances s' = (the_instances s)(n \<mapsto> v))"

text \<open>
  The bookkeeping of an \<^verbatim>\<open>async.map\<close> over \<open>ns\<close> whose items in \<open>open\<close> are not
  completed yet: it has not called its final callback \<open>k\<close>, and the result of every
  other item is in place.
\<close>

definition map_ok ::
  "cont \<Rightarrow> string list \<Rightarrow> (string \<Rightarrow> jsval) \<Rightarrow> nat set \<Rightarrow> mapstate \<Rightarrow> bool" where
  "map_ok k ns val open ms \<longleftrightarrow>
     final ms = k \<and> total ms = length ns \<and> \<not> fired ms \<and>
     open \<subseteq> {..<length ns} \<and> completed ms + card open = length ns \<and>
     length (results ms) \<le> length ns \<and>
     (\<forall>j<length ns. j \<notin> open \<longrightarrow> j < length (results ms) \<and> results ms ! j = val (ns ! j))"

text \<open>The scheduled task that will complete item \<open>j\<close> of the \<^verbatim>\<open>async.map\<close> number \<open>m\<close>.\<close>

definition awaiting :: "nat \<Rightarrow> string list \<Rightarrow> (string \<Rightarrow> jsval) \<Rightarrow> task \<Rightarrow> nat \<Rightarrow> bool" where
  "awaiting m ns val t j \<longleftrightarrow>
     j < length ns \<and>
     (\<exists>d b e. \<not> truthy e \<and> t = Task d (KCache (ns ! j) b (KMapItem m j)) e (val (ns ! j)))"

text \<open>
  The state while the \<^verbatim>\<open>async.map\<close> number \<open>m\<close> over \<open>ns\<close> is under way: the items
  before \<open>i\<close> have been started, those in \<open>js\<close> are the ones the scheduler queue
  holds, in its order, and every name is still served.
\<close>

definition map_inv ::
  "nat \<Rightarrow> cont \<Rightarrow> string list \<Rightarrow> (string \<Rightarrow> jsval) \<Rightarrow> nat \<Rightarrow> nat list \<Rightarrow> state \<Rightarrow> bool" where
  "map_inv m k ns val i js s \<longleftrightarrow>
     m < length (maps s) \<and>
     map_ok k ns val (set js \<union> {i..<length ns}) (maps s ! m) \<and>
     distinct js \<and> (\<forall>j\<in>set js. j < i) \<and> i \<le> length ns \<and>
     (js \<noteq> [] \<or> i < length ns) \<and>
     list_all2 (awaiting m ns val) (queue s) js \<and>
     (\<forall>n\<in>set ns. serves s n (val n))"

text \<open>The scheduling steps the queued tasks still need.\<close>

fun task_delay :: "task \<Rightarrow> nat" where
  "task_delay (Task d k e v) = Suc d"

text \<open>
  A turn followed by the scheduler, with the fuel of each given apart, what they
  execute and where they stop; a run has ended when it has returned or thrown.
\<close>

definition run_all :: "nat \<Rightarrow> nat \<Rightarrow> instr list \<Rightarrow> state \<Rightarrow> outcome" where
  "run_all n1 n2 is s =
     (case run_sync n1 is s of
        Returned u \<Rightarrow> run_loop n2 u
      | Threw e u \<Rightarrow> Threw e u
      | OutOfFuel \<Rightarrow> OutOfFuel)"

definition trace_all :: "nat \<Rightarrow> nat \<Rightarrow> instr list \<Rightarrow> state \<Rightarrow> instr list" where
  "trace_all n1 n2 is s =
     trace_sync n1 is s @
     (case run_sync n1 is s of
        Returned u \<Rightarrow> trace_loop n2 u
      | Threw e u \<Rightarrow> []
      | OutOfFuel \<Rightarrow> [])"

definition stop_all :: "nat \<Rightarrow> nat \<Rightarrow> instr list \<Rightarrow> state \<Rightarrow> instr list \<times> state" where
  "stop_all n1 n2 is s =
     (case run_sync n1 is s of
        Returned u \<Rightarrow> stop_loop n2 u
      | Threw e u \<Rightarrow> stop_sync n1 is s
      | OutOfFuel \<Rightarrow> stop_sync n1 is s)"

definition ended :: "outcome \<Rightarrow> state \<Rightarrow> bool" where
  "ended r s' \<longleftrightarrow> (r = Returned s' \<or> (\<exists>e. r = Threw e s'))"

text \<open>What the executed calls deliver to the callers' callbacks.\<close>

fun top_call :: "instr \<Rightarrow> (nat \<times> jsval \<times> jsval) list" where
  "top_call (ICallback (KTop c) err v) = [(c, err, v)]"
| "top_call j = []"

definition tops :: "instr list \<Rightarrow> (nat \<times> jsval \<times> jsval) list" where
  "tops T = concat (map top_call T)"


text \<open>The call that a callback makes next, where that does not depend on the state.\<close>

fun hands_on :: "instr \<Rightarrow> instr option" where
  "hands_on (ICallback (KCache n b k) err v) =
     Some (if truthy err then ICallback k err Undefined else ICallback k Null v)"
| "hands_on (ICallback (KCallSync f k) err v) =
     (if truthy err then Some (ICallback k err Undefined) else None)"
| "hands_on (ICallback (KCallCtor f k) err v) =
     (if truthy err then Some (ICallback k err Undefined) else None)"
| "hands_on (ICallback (KCall f k) err v) =
     (if truthy err then Some (ICallback k err Undefined) else None)"
| "hands_on j = None"

text \<open>
  What the final callback of an \<^verbatim>\<open>async.map\<close> is called with, given how many items
  are still to succeed, the results so far and the calls of the item callbacks to
  come; the results the calls store; the calls without an error.
\<close>

fun fire_value ::
  "nat \<Rightarrow> jsval list \<Rightarrow> (nat \<times> jsval \<times> jsval) list \<Rightarrow> (jsval \<times> jsval) option" where
  "fire_value 0 rs E = Some (Null, Arr rs)"
| "fire_value (Suc k) rs [] = None"
| "fire_value (Suc k) rs ((i, err, v) # E) =
     (if truthy err then Some (err, Arr (js_set rs i v)) else fire_value k (js_set rs i v) E)"

definition stored :: "jsval list \<Rightarrow> (nat \<times> jsval \<times> jsval) list \<Rightarrow> jsval list" where
  "stored rs E = foldl (\<lambda>rs ev. js_set rs (fst ev) (snd (snd ev))) rs E"

definition succeeded :: "(nat \<times> jsval \<times> jsval) list \<Rightarrow> (nat \<times> jsval \<times> jsval) list" where
  "succeeded E = filter (\<lambda>ev. \<not> truthy (fst (snd ev))) E"

text \<open>
  The invariants of a run, each about the calls \<open>T\<close> executed so far, the calls
  pending in the current turn and the state: the bookkeeping of the \<^verbatim>\<open>async.map\<close>
  number \<open>m\<close> follows the calls of its item callbacks, and its final callback has
  been called, or is the next pending call, as soon as it is due; the item callbacks
  of that map are handed to the resolutions of its items; the log is what the calls
  delivered; the user functions were called as the calls say; a call that a
  callback makes next has been made or is the next pending call; and the callback
  \<open>c\<close> is held at most \<open>B\<close> times, deliveries included.
\<close>

definition tracks :: "nat \<Rightarrow> nat \<Rightarrow> cont \<Rightarrow> instr list \<Rightarrow> instr list \<Rightarrow> state \<Rightarrow> bool" where
  "tracks m k K T stack s \<longleftrightarrow>
     m < length (maps s) \<and> total (maps s ! m) = k \<and> final (maps s ! m) = K \<and>
     results (maps s ! m) = stored [] (item_calls m T) \<and>
     completed (maps s ! m) = length (succeeded (item_calls m T)) \<and>
     fired (maps s ! m) = (fire_value k [] (item_calls m T) \<noteq> None) \<and>
     (\<forall>e r. fire_value k [] (item_calls m T) = Some (e, r) \<longrightarrow>
        ICallback K e r \<in> set T \<or> (\<exists>rest. stack = ICallback K e r # rest))"

fun disp_ok :: "nat \<Rightarrow> string list \<Rightarrow> instr \<Rightarrow> bool" where
  "disp_ok m ns (IResolve t (KMapItem m' j)) = (m' = m \<longrightarrow> t = Name (ns ! j) \<and> j < length ns)"
| "disp_ok m ns (IMapLoop m' rest i) = (m' = m \<longrightarrow> rest = drop i ns \<and> i \<le> length ns)"
| "disp_ok m ns j = True"

definition dispatches :: "nat \<Rightarrow> string list \<Rightarrow> instr list \<Rightarrow> instr list \<Rightarrow> state \<Rightarrow> bool" where
  "dispatches m ns T stack s \<longleftrightarrow>
     m < length (maps s) \<and> (\<forall>x\<in>set T \<union> set stack. disp_ok m ns x)"

definition logged :: "(nat \<times> jsval \<times> jsval) list \<Rightarrow> instr list \<Rightarrow> instr list \<Rightarrow> state \<Rightarrow> bool" where
  "logged L T stack s \<longleftrightarrow> log s = L @ tops T"


definition handed :: "instr list \<Rightarrow> instr list \<Rightarrow> state \<Rightarrow> bool" where
  "handed T stack s \<longleftrightarrow>
     (\<forall>i\<in>set T. \<forall>j. hands_on i = Some j \<longrightarrow> j \<in> set T \<or> (\<exists>rest. stack = j # rest))"

fun holds :: "nat \<Rightarrow> instr \<Rightarrow> nat" where
  "holds c (IResolve name k) = (if root_is c k then 1 else 0)"
| "holds c (ICallback k err v) = (if root_is c k then 1 else 0)"
| "holds c (IMapLoop m ns i) = 0"

definition owed :: "nat \<Rightarrow> nat \<Rightarrow> instr list \<Rightarrow> instr list \<Rightarrow> state \<Rightarrow> bool" where
  "owed c B T stack s \<longleftrightarrow>
     sum_list (map (holds c) stack) + held c s + length (received c (tops T)) \<le> B"

definition step_held :: "nat \<Rightarrow> nat \<Rightarrow> step \<Rightarrow> bool" where
  "step_held c before r \<longleftrightarrow>
     (case r of
        Next js s' \<Rightarrow> sum_list (map (holds c) js) + held c s' \<le> before
      | Throw e s' \<Rightarrow> held c s' \<le> before)"

section \<open>Unfolding and frame lemmas\<close>

lemmas run_defs = call_resolve_def resolve_and_wait_def resolve_def Let_def callSync_def
  callCtor_def call_def async_map_def fire_def map_item_def apply_sync_def apply_async_def
  construct_def record_call_def count_calls_def setImmediate_def getDependenciesNames_def
  js_set_def config_singleton_def after_def accepted_def thrown_def unknown_def

lemmas reg_defs = register_def registerSync_def registerCtor_def registerInstance_def
  store_def addInterfaceMapping_def add_implementation_def xtend_def given_def default_register_options_def
  no_options_def Container_def

lemma foldl_iface_frame:
  "the_registry (foldl (add_implementation n) s xs) = the_registry s \<and>
   the_instances (foldl (add_implementation n) s xs) = the_instances s \<and>
   maps (foldl (add_implementation n) s xs) = maps s \<and>
   queue (foldl (add_implementation n) s xs) = queue s \<and>
   calls (foldl (add_implementation n) s xs) = calls s \<and>
   log (foldl (add_implementation n) s xs) = log s"
  by (induction xs arbitrary: s) (simp_all add: add_implementation_def)

lemma addInterfaceMapping_frame [simp]:
  "the_registry (addInterfaceMapping n ifs s) = the_registry s"
  "the_instances (addInterfaceMapping n ifs s) = the_instances s"
  "maps (addInterfaceMapping n ifs s) = maps s"
  "queue (addInterfaceMapping n ifs s) = queue s"
  "calls (addInterfaceMapping n ifs s) = calls s"
  "log (addInterfaceMapping n ifs s) = log s"
  by (simp_all add: addInterfaceMapping_def foldl_iface_frame split: option.split)

lemma store_frame [simp]:
  "the_registry (store n fac cfg s) = (the_registry s)(n \<mapsto> \<lparr>factory = fac, config = cfg\<rparr>)"
  "the_instances (store n fac cfg s) = the_instances s"
  "maps (store n fac cfg s) = maps s"
  "queue (store n fac cfg s) = queue s"
  "calls (store n fac cfg s) = calls s"
  "log (store n fac cfg s) = log s"
  by (simp_all add: store_def)

section \<open>Singletons\<close>

text \<open>
  A singleton whose cached instance is truthy is served from the cache: the callback
  receives the cached value in the same turn and no factory runs.
\<close>

lemma cached_singleton_is_reused:
  assumes "the_registry s n = Some r" and "config_singleton (config r)"
      and "the_instances s n = Some v" and "truthy v"
  shows "call_resolve (Suc (Suc k)) (Name n) c s = Returned (s\<lparr>log := log s @ [(c, Null, v)]\<rparr>)"
  using assms by (simp add: call_resolve_def resolve_def Let_def)

text \<open>The callback that \<^verbatim>\<open>resolve\<close> passes to the factory stores what a singleton produced.\<close>

lemma singleton_result_is_cached:
  assumes "\<not> truthy err"
  shows "invoke_callback (KCache n True callback) err v s =
           Next [ICallback callback Null v] (s\<lparr>the_instances := (the_instances s)(n \<mapsto> v)\<rparr>)"
  using assms by simp

text \<open>
  C1. A singleton resolved twice in sequence should give the same value twice, with
  at most one call of the factory, whatever the factory produces. The cache is
  consulted with \<^verbatim>\<open>if (instance)\<close>, so a falsy product is stored and never found
  again: the counter that starts at zero is called twice and the two resolutions
  receive \<open>0\<close> and \<open>1\<close>.
\<close>

theorem zero_valued_singleton_is_produced_twice:
  "log zero_second = [(1, Null, Num 0), (2, Null, Num 1)] \<and>
   calls zero_second = [(1, []), (1, [])]"
  by (simp add: zero_second_def zero_first_def zero_singleton_def counting_from_def
        run_defs reg_defs eval_nat_numeral)

section \<open>Unknown names\<close>

text \<open>
  C4. A name that is neither in the registry nor in the interface index: \<^verbatim>\<open>resolve\<close>
  returns without having called the callback, leaving one scheduled task; that task,
  whenever the scheduler runs it, calls the callback exactly once, with the error
  \<^verbatim>\<open>unknown service or interface <name>\<close>; and from an idle scheduler the whole
  resolution ends with exactly that one delivery.
\<close>

theorem unknown_name_fails_asynchronously:
  assumes "the_registry s n = None" and "the_interfaces s n = None"
  shows "call_resolve (Suc k) (Name n) c s =
           Returned (s\<lparr>queue := queue s @
              [Task 0 (KTop c) (Error (''unknown service or interface '' @ n)) Undefined]\<rparr>) \<and>
         (\<forall>t. run_task (Suc k)
                (Task 0 (KTop c) (Error (''unknown service or interface '' @ n)) Undefined) t =
              Returned (t\<lparr>log := log t @
                 [(c, Error (''unknown service or interface '' @ n), Undefined)]\<rparr>)) \<and>
         (queue s = [] \<longrightarrow>
            resolve_and_wait (Suc (Suc k)) (Name n) c s =
              Returned (s\<lparr>log := log s @
                 [(c, Error (''unknown service or interface '' @ n), Undefined)]\<rparr>))"
  using assms
  by (simp add: call_resolve_def resolve_and_wait_def resolve_def setImmediate_def unknown_def)

theorem unknown_name_fails_asynchronously_witness:
  "the_registry readme_singleton ''nope'' = None \<and>
   the_interfaces readme_singleton ''nope'' = None \<and>
   queue readme_singleton = [] \<and>
   log (after (call_resolve (Suc 0) (Name ''nope'') 7 readme_singleton)) = [] \<and>
   length (queue (after (call_resolve (Suc 0) (Name ''nope'') 7 readme_singleton))) = 1 \<and>
   log (after (resolve_and_wait (Suc (Suc 0)) (Name ''nope'') 7 readme_singleton)) =
     [(7, Error ''unknown service or interface nope'', Undefined)]"
proof -
  have r: "the_registry readme_singleton ''nope'' = None"
    by (simp add: readme_singleton_def run_defs reg_defs)
  have i: "the_interfaces readme_singleton ''nope'' = None"
    by (simp add: readme_singleton_def run_defs reg_defs)
  have q: "queue readme_singleton = []" and l: "log readme_singleton = []"
    by (simp_all add: readme_singleton_def run_defs reg_defs)
  from unknown_name_fails_asynchronously [where k = 0 and c = 7, OF r i] r i q l
  show ?thesis by (simp add: after_def)
qed

section \<open>Registered instances\<close>

lemma instance_resolve:
  assumes "the_registry s n = Some \<lparr>factory = Instance v, config = cfg\<rparr>"
      and "config_singleton cfg \<longrightarrow> (\<forall>w. the_instances s n = Some w \<longrightarrow> truthy w \<longrightarrow> w = v)"
  shows "call_resolve (Suc (Suc (Suc k))) (Name n) c s =
           Returned (s\<lparr>the_instances :=
                         (if config_singleton cfg \<and>
                             \<not> (\<exists>w. the_instances s n = Some w \<and> truthy w)
                          then (the_instances s)(n \<mapsto> v) else the_instances s),
                       log := log s @ [(c, Null, v)]\<rparr>)"
  using assms
  by (auto simp: call_resolve_def resolve_def Let_def split: option.splits)

text \<open>
  C7 as it is stated fails. A name registered with \<^verbatim>\<open>registerInstance\<close> does not
  resolve to that instance when the name was resolved as a singleton before: the second
  registration replaces the record, and the resolution still answers from the cache.
\<close>

theorem replaced_instance_still_resolves_to_the_old_one:
  "registerInstance (Str ''settings'') (Obj 2) None settings_first = Inr settings_replaced \<and>
   log (after (resolve_and_wait 10 (Name ''settings'') 2 settings_replaced)) =
     [(1, Null, Obj 1), (2, Null, Obj 1)]"
  by (simp add: settings_replaced_def settings_first_def run_defs reg_defs eval_nat_numeral)

text \<open>
  C7, as the code has it. A name whose record is the one \<^verbatim>\<open>registerInstance\<close> stores
  for \<open>v\<close> resolves to exactly \<open>v\<close>, singleton or transient, provided that a singleton
  configuration does not find another truthy value already cached for the name. The
  resolution calls no factory, schedules nothing, and leaves a state in which the same
  conditions hold, so that every later call yields \<open>v\<close> again.
\<close>

theorem registered_instance_resolves_to_itself:
  assumes "the_registry s n = Some \<lparr>factory = Instance v, config = cfg\<rparr>"
      and "config_singleton cfg \<longrightarrow> (\<forall>w. the_instances s n = Some w \<longrightarrow> truthy w \<longrightarrow> w = v)"
  shows "\<exists>s'. call_resolve (Suc (Suc (Suc k))) (Name n) c s = Returned s' \<and>
              log s' = log s @ [(c, Null, v)] \<and>
              calls s' = calls s \<and> queue s' = queue s \<and>
              the_registry s' n = Some \<lparr>factory = Instance v, config = cfg\<rparr> \<and>
              (config_singleton cfg \<longrightarrow>
                 (\<forall>w. the_instances s' n = Some w \<longrightarrow> truthy w \<longrightarrow> w = v))"
  using assms by (simp add: instance_resolve [OF assms])

theorem registered_instance_resolves_to_itself_witness:
  "the_registry settings_transient ''settings'' =
     Some \<lparr>factory = Instance (Obj 7),
           config = \<lparr>singleton = Some False, interfaces = None\<rparr>\<rparr> \<and>
   \<not> config_singleton \<lparr>singleton = Some False, interfaces = None\<rparr> \<and>
   (\<exists>s'. call_resolve (Suc (Suc (Suc 0))) (Name ''settings'') 4 settings_transient =
            Returned s' \<and>
          log s' = log settings_transient @ [(4, Null, Obj 7)] \<and>
          calls s' = calls settings_transient)"
proof -
  have r: "the_registry settings_transient ''settings'' =
     Some \<lparr>factory = Instance (Obj 7),
           config = \<lparr>singleton = Some False, interfaces = None\<rparr>\<rparr>"
    by (simp add: settings_transient_def run_defs reg_defs)
  have c: "\<not> config_singleton \<lparr>singleton = Some False, interfaces = None\<rparr>"
    by (simp add: config_singleton_def)
  from registered_instance_resolves_to_itself [where k = 0 and c = 4, OF r] r c
  show ?thesis by auto
qed

text \<open>
  C9 as it is stated fails in its last part, that every instance other than
  \<^verbatim>\<open>undefined\<close> is later resolved: \<^verbatim>\<open>registerInstance('service', null)\<close> is accepted, but the
  name was resolved as a singleton before and the resolution answers \<open>1\<close> from the cache.
\<close>

theorem null_instance_over_cached_service:
  "registerInstance (Str ''service'') Null None readme_resolved = Inr service_nulled \<and>
   log (after (resolve_and_wait 10 (Name ''service'') 2 service_nulled)) =
     [(1, Null, Num 1), (2, Null, Num 1)]"
  by (simp add: service_nulled_def readme_resolved_def readme_singleton_def counting_from_def
        run_defs reg_defs eval_nat_numeral)

text \<open>
  C9, as the code has it. With a valid name, \<^verbatim>\<open>registerInstance\<close> fails with
  \<^verbatim>\<open>instance is required\<close> for \<^verbatim>\<open>undefined\<close> and accepts and stores every other
  value, truthy or falsy; resolving the name then succeeds with that value, provided
  that a singleton configuration does not find another truthy value already cached
  for the name.
\<close>

theorem registerInstance_rejects_only_undefined:
  assumes "valid_name name = Some n"
  shows "registerInstance name Undefined opts s = Inl ''instance is required'' \<and>
         (inst \<noteq> Undefined \<longrightarrow>
            registerInstance name inst opts s =
              Inr (store n (Instance inst) (xtend default_register_options (given opts)) s) \<and>
            the_registry (store n (Instance inst) (xtend default_register_options (given opts)) s) n =
              Some \<lparr>factory = Instance inst,
                    config = xtend default_register_options (given opts)\<rparr> \<and>
            ((config_singleton (xtend default_register_options (given opts)) \<longrightarrow>
                (\<forall>w. the_instances s n = Some w \<longrightarrow> truthy w \<longrightarrow> w = inst)) \<longrightarrow>
             (\<exists>s'. call_resolve (Suc (Suc (Suc k))) (Name n) c
                      (store n (Instance inst) (xtend default_register_options (given opts)) s) =
                      Returned s' \<and>
                    log s' = log s @ [(c, Null, inst)])))"
proof (intro conjI impI)
  show "registerInstance name Undefined opts s = Inl ''instance is required''"
    using assms by (simp add: registerInstance_def)
next
  assume "inst \<noteq> Undefined"
  then show "registerInstance name inst opts s =
              Inr (store n (Instance inst) (xtend default_register_options (given opts)) s)"
    using assms by (simp add: registerInstance_def)
next
  show "the_registry (store n (Instance inst) (xtend default_register_options (given opts)) s) n =
              Some \<lparr>factory = Instance inst,
                    config = xtend default_register_options (given opts)\<rparr>"
    by simp
next
  assume h: "config_singleton (xtend default_register_options (given opts)) \<longrightarrow>
                (\<forall>w. the_instances s n = Some w \<longrightarrow> truthy w \<longrightarrow> w = inst)"
  let ?t = "store n (Instance inst) (xtend default_register_options (given opts)) s"
  have r: "the_registry ?t n =
             Some \<lparr>factory = Instance inst, config = xtend default_register_options (given opts)\<rparr>"
    by simp
  have c: "config_singleton (xtend default_register_options (given opts)) \<longrightarrow>
             (\<forall>w. the_instances ?t n = Some w \<longrightarrow> truthy w \<longrightarrow> w = inst)"
    using h by simp
  show "\<exists>s'. call_resolve (Suc (Suc (Suc k))) (Name n) c ?t = Returned s' \<and>
              log s' = log s @ [(c, Null, inst)]"
    by (simp add: instance_resolve [OF r c])
qed

theorem registerInstance_rejects_only_undefined_witness:
  "valid_name (Str ''flag'') = Some ''flag'' \<and>
   registerInstance (Str ''flag'') Undefined None Container = Inl ''instance is required'' \<and>
   registerInstance (Str ''flag'') Null None Container = Inr fresh_null \<and>
   the_instances Container ''flag'' = None \<and>
   (\<exists>s'. call_resolve (Suc (Suc (Suc 0))) (Name ''flag'') 3 fresh_null = Returned s' \<and>
          log s' = [(3, Null, Null)])"
proof -
  have v: "valid_name (Str ''flag'') = Some ''flag''" by simp
  have i: "the_instances Container ''flag'' = None" and l: "log Container = []"
    by (simp_all add: Container_def)
  from registerInstance_rejects_only_undefined
    [where opts = None and s = Container and inst = Null and k = 0 and c = 3, OF v] v i l
  show ?thesis by (simp add: fresh_null_def)
qed

section \<open>Registering a name again\<close>

text \<open>
  C8. Registering a name that is already in the registry: each of the four
  operations accepts the call (for \<^verbatim>\<open>register\<close>, a function whose \<^verbatim>\<open>length\<close> is not
  zero; for \<^verbatim>\<open>registerInstance\<close>, an instance other than \<^verbatim>\<open>undefined\<close>), replaces the
  record of the name by the new one, adds no name to the registry and leaves the
  instance cache as it was, so that an instance cached for the name stays. And
  whenever one of them accepts, whatever it was given, the record of the name is
  replaced and the cache is as it was.
\<close>

theorem reregistration_replaces_record_keeps_cache:
  assumes name: "valid_name name = Some n" and old: "the_registry s n = Some old"
  shows "(arity f \<noteq> 0 \<longrightarrow>
            (\<exists>s1. register name (Function f) opts s = Inr s1 \<and>
                  the_registry s1 = (the_registry s)(n \<mapsto>
                    \<lparr>factory = (if arity f = 1 then Direct f else ViaCall f),
                     config = xtend default_register_options (given opts)\<rparr>) \<and>
                  dom (the_registry s1) = dom (the_registry s) \<and>
                  the_instances s1 = the_instances s)) \<and>
         (\<exists>s2. registerSync name (Function g) opts s = Inr s2 \<and>
               the_registry s2 = (the_registry s)(n \<mapsto>
                 \<lparr>factory = ViaCallSync g,
                  config = xtend default_register_options (given opts)\<rparr>) \<and>
               dom (the_registry s2) = dom (the_registry s) \<and>
               the_instances s2 = the_instances s) \<and>
         (\<exists>s3. registerCtor name (Function g) opts s = Inr s3 \<and>
               the_registry s3 = (the_registry s)(n \<mapsto>
                 \<lparr>factory = ViaCallCtor g,
                  config = xtend default_register_options (given opts)\<rparr>) \<and>
               dom (the_registry s3) = dom (the_registry s) \<and>
               the_instances s3 = the_instances s) \<and>
         (v \<noteq> Undefined \<longrightarrow>
            (\<exists>s4. registerInstance name v opts s = Inr s4 \<and>
                  the_registry s4 = (the_registry s)(n \<mapsto>
                    \<lparr>factory = Instance v,
                     config = xtend default_register_options (given opts)\<rparr>) \<and>
                  dom (the_registry s4) = dom (the_registry s) \<and>
                  the_instances s4 = the_instances s)) \<and>
         (\<forall>fa fs w t.
            register name fa opts s = Inr t \<or> registerSync name fs opts s = Inr t \<or>
            registerCtor name fs opts s = Inr t \<or> registerInstance name w opts s = Inr t \<longrightarrow>
              the_instances t = the_instances s \<and>
              (\<exists>fac. the_registry t = (the_registry s)(n \<mapsto>
                 \<lparr>factory = fac, config = xtend default_register_options (given opts)\<rparr>)))"
proof -
  from old have d: "insert n (dom (the_registry s)) = dom (the_registry s)" by auto
  have 1: "arity f \<noteq> 0 \<longrightarrow>
            (\<exists>s1. register name (Function f) opts s = Inr s1 \<and>
                  the_registry s1 = (the_registry s)(n \<mapsto>
                    \<lparr>factory = (if arity f = 1 then Direct f else ViaCall f),
                     config = xtend default_register_options (given opts)\<rparr>) \<and>
                  dom (the_registry s1) = dom (the_registry s) \<and>
                  the_instances s1 = the_instances s)"
    using name d by (simp add: register_def)
  have 2: "\<exists>s2. registerSync name (Function g) opts s = Inr s2 \<and>
               the_registry s2 = (the_registry s)(n \<mapsto>
                 \<lparr>factory = ViaCallSync g,
                  config = xtend default_register_options (given opts)\<rparr>) \<and>
               dom (the_registry s2) = dom (the_registry s) \<and>
               the_instances s2 = the_instances s"
    using name d by (simp add: registerSync_def)
  have 3: "\<exists>s3. registerCtor name (Function g) opts s = Inr s3 \<and>
               the_registry s3 = (the_registry s)(n \<mapsto>
                 \<lparr>factory = ViaCallCtor g,
                  config = xtend default_register_options (given opts)\<rparr>) \<and>
               dom (the_registry s3) = dom (the_registry s) \<and>
               the_instances s3 = the_instances s"
    using name d by (simp add: registerCtor_def)
  have 4: "v \<noteq> Undefined \<longrightarrow>
            (\<exists>s4. registerInstance name v opts s = Inr s4 \<and>
                  the_registry s4 = (the_registry s)(n \<mapsto>
                    \<lparr>factory = Instance v,
                     config = xtend default_register_options (given opts)\<rparr>) \<and>
                  dom (the_registry s4) = dom (the_registry s) \<and>
                  the_instances s4 = the_instances s)"
    using name d by (simp add: registerInstance_def)
  have 5: "\<forall>fa fs w t.
            register name fa opts s = Inr t \<or> registerSync name fs opts s = Inr t \<or>
            registerCtor name fs opts s = Inr t \<or> registerInstance name w opts s = Inr t \<longrightarrow>
              the_instances t = the_instances s \<and>
              (\<exists>fac. the_registry t = (the_registry s)(n \<mapsto>
                 \<lparr>factory = fac, config = xtend default_register_options (given opts)\<rparr>))"
  proof (intro allI impI)
    fix fa fs w t
    assume "register name fa opts s = Inr t \<or> registerSync name fs opts s = Inr t \<or>
            registerCtor name fs opts s = Inr t \<or> registerInstance name w opts s = Inr t"
    then have "\<exists>fac. t = store n fac (xtend default_register_options (given opts)) s"
      using name
      by (cases fa; cases fs)
         (auto simp: register_def registerSync_def registerCtor_def registerInstance_def
            split: if_splits)
    then obtain fac where "t = store n fac (xtend default_register_options (given opts)) s"
      by blast
    then show "the_instances t = the_instances s \<and>
              (\<exists>fac. the_registry t = (the_registry s)(n \<mapsto>
                 \<lparr>factory = fac, config = xtend default_register_options (given opts)\<rparr>))"
      by (intro conjI exI [of _ fac]) simp_all
  qed
  from 1 2 3 4 5 show ?thesis by (intro conjI)
qed

theorem reregistration_replaces_record_keeps_cache_witness:
  "valid_name (Str ''service'') = Some ''service'' \<and>
   the_registry readme_resolved ''service'' =
     Some \<lparr>factory = ViaCallSync (counting_from 1),
           config = \<lparr>singleton = Some True, interfaces = None\<rparr>\<rparr> \<and>
   the_instances readme_resolved ''service'' = Some (Num 1) \<and>
   (\<exists>s1. register (Str ''service'') (Function (later_factory 42 1 (Obj 5))) None
            readme_resolved = Inr s1 \<and>
          the_registry s1 ''service'' =
            Some \<lparr>factory = Direct (later_factory 42 1 (Obj 5)),
                  config = \<lparr>singleton = Some True, interfaces = None\<rparr>\<rparr> \<and>
          the_instances s1 ''service'' = Some (Num 1)) \<and>
   (\<exists>s2. registerSync (Str ''service'') (Function db_ctor) None readme_resolved = Inr s2 \<and>
          the_registry s2 ''service'' =
            Some \<lparr>factory = ViaCallSync db_ctor,
                  config = \<lparr>singleton = Some True, interfaces = None\<rparr>\<rparr> \<and>
          the_instances s2 ''service'' = Some (Num 1)) \<and>
   (\<exists>s3. registerCtor (Str ''service'') (Function db_ctor) None readme_resolved = Inr s3 \<and>
          the_registry s3 ''service'' =
            Some \<lparr>factory = ViaCallCtor db_ctor,
                  config = \<lparr>singleton = Some True, interfaces = None\<rparr>\<rparr> \<and>
          the_instances s3 ''service'' = Some (Num 1)) \<and>
   (\<exists>s4. registerInstance (Str ''service'') (Num 5) None readme_resolved = Inr s4 \<and>
          the_registry s4 ''service'' =
            Some \<lparr>factory = Instance (Num 5),
                  config = \<lparr>singleton = Some True, interfaces = None\<rparr>\<rparr> \<and>
          the_instances s4 ''service'' = Some (Num 1))"
proof -
  have v: "valid_name (Str ''service'') = Some ''service''" by simp
  have r: "the_registry readme_resolved ''service'' =
     Some \<lparr>factory = ViaCallSync (counting_from 1),
           config = \<lparr>singleton = Some True, interfaces = None\<rparr>\<rparr>"
    by (simp add: readme_resolved_def readme_singleton_def counting_from_def
          run_defs reg_defs eval_nat_numeral)
  have i: "the_instances readme_resolved ''service'' = Some (Num 1)"
    by (simp add: readme_resolved_def readme_singleton_def counting_from_def
          run_defs reg_defs eval_nat_numeral)
  have a: "arity (later_factory 42 1 (Obj 5)) = 1" by (simp add: later_factory_def)
  have c: "xtend default_register_options (given None) =
             \<lparr>singleton = Some True, interfaces = None\<rparr>"
    by (simp add: xtend_def given_def default_register_options_def no_options_def)
  note t = reregistration_replaces_record_keeps_cache
    [where f = "later_factory 42 1 (Obj 5)" and g = db_ctor and v = "Num 5" and opts = None,
     OF v r]
  from t [THEN conjunct1] a i c
  have 1: "\<exists>s1. register (Str ''service'') (Function (later_factory 42 1 (Obj 5))) None
            readme_resolved = Inr s1 \<and>
          the_registry s1 ''service'' =
            Some \<lparr>factory = Direct (later_factory 42 1 (Obj 5)),
                  config = \<lparr>singleton = Some True, interfaces = None\<rparr>\<rparr> \<and>
          the_instances s1 ''service'' = Some (Num 1)"
    by auto
  from t [THEN conjunct2, THEN conjunct1] i c
  have 2: "\<exists>s2. registerSync (Str ''service'') (Function db_ctor) None readme_resolved = Inr s2 \<and>
          the_registry s2 ''service'' =
            Some \<lparr>factory = ViaCallSync db_ctor,
                  config = \<lparr>singleton = Some True, interfaces = None\<rparr>\<rparr> \<and>
          the_instances s2 ''service'' = Some (Num 1)"
    by auto
  from t [THEN conjunct2, THEN conjunct2, THEN conjunct1] i c
  have 3: "\<exists>s3. registerCtor (Str ''service'') (Function db_ctor) None readme_resolved = Inr s3 \<and>
          the_registry s3 ''service'' =
            Some \<lparr>factory = ViaCallCtor db_ctor,
                  config = \<lparr>singleton = Some True, interfaces = None\<rparr>\<rparr> \<and>
          the_instances s3 ''service'' = Some (Num 1)"
    by auto
  from t [THEN conjunct2, THEN conjunct2, THEN conjunct2, THEN conjunct1] i c
  have 4: "\<exists>s4. registerInstance (Str ''service'') (Num 5) None readme_resolved = Inr s4 \<and>
          the_registry s4 ''service'' =
            Some \<lparr>factory = Instance (Num 5),
                  config = \<lparr>singleton = Some True, interfaces = None\<rparr>\<rparr> \<and>
          the_instances s4 ''service'' = Some (Num 1)"
    by auto
  from v r i 1 2 3 4 show ?thesis by (intro conjI)
qed

section \<open>What a resolution and a registration leave untouched\<close>

lemma step_state_simps [simp]:
  "step_state (Next js s) = s" "step_state (Throw e s) = s"
  by (simp_all add: step_state_def)

lemma fire_frame:
  "the_registry (step_state (fire m ms err s)) = the_registry s \<and>
   the_interfaces (step_state (fire m ms err s)) = the_interfaces s \<and>
   the_instances (step_state (fire m ms err s)) = the_instances s"
  by (simp add: fire_def)

lemma async_map_frame:
  "the_registry (step_state (async_map ns k s)) = the_registry s \<and>
   the_interfaces (step_state (async_map ns k s)) = the_interfaces s \<and>
   the_instances (step_state (async_map ns k s)) = the_instances s"
  by (simp add: async_map_def Let_def fire_frame)

lemma map_item_frame:
  "the_registry (step_state (map_item m i err v s)) = the_registry s \<and>
   the_interfaces (step_state (map_item m i err v s)) = the_interfaces s \<and>
   the_instances (step_state (map_item m i err v s)) = the_instances s"
  by (simp add: map_item_def Let_def fire_frame)

lemma apply_async_frame:
  "the_registry (step_state (apply_async f args k s)) = the_registry s \<and>
   the_interfaces (step_state (apply_async f args k s)) = the_interfaces s \<and>
   the_instances (step_state (apply_async f args k s)) = the_instances s"
  by (simp add: apply_async_def record_call_def split: async_effect.split)

lemma invoke_frame:
  "the_registry (step_state (invoke fac k s)) = the_registry s \<and>
   the_interfaces (step_state (invoke fac k s)) = the_interfaces s \<and>
   the_instances (step_state (invoke fac k s)) = the_instances s"
  by (cases fac) (simp_all add: apply_async_frame call_def callSync_def callCtor_def)

lemma resolve_frame:
  "the_registry (step_state (resolve name k s)) = the_registry s \<and>
   the_interfaces (step_state (resolve name k s)) = the_interfaces s \<and>
   the_instances (step_state (resolve name k s)) = the_instances s"
  by (simp add: resolve_def Let_def async_map_frame invoke_frame setImmediate_def
      split: target.split option.split)

lemma invoke_callback_frame:
  "the_registry (step_state (invoke_callback k err v s)) = the_registry s \<and>
   the_interfaces (step_state (invoke_callback k err v s)) = the_interfaces s \<and>
   the_instances (step_state (invoke_callback k err v s)) =
     (case k of
        KCache n sing k' \<Rightarrow>
          if sing \<and> \<not> truthy err then (the_instances s)(n \<mapsto> v) else the_instances s
      | _ \<Rightarrow> the_instances s)"
  by (cases k)
     (simp_all add: map_item_frame apply_async_frame apply_sync_def construct_def record_call_def
        split: sync_effect.split)

lemma exec_frame:
  "the_registry (step_state (exec i s)) = the_registry s \<and>
   the_interfaces (step_state (exec i s)) = the_interfaces s \<and>
   the_instances (step_state (exec i s)) =
     (case cache_write i of
        Some (n, v) \<Rightarrow> (the_instances s)(n \<mapsto> v)
      | None \<Rightarrow> the_instances s)"
proof (cases i)
  case (IResolve name k)
  then show ?thesis by (simp add: resolve_frame)
next
  case (ICallback k err v)
  then show ?thesis
    by (cases k) (simp_all add: invoke_callback_frame del: invoke_callback.simps)
next
  case (IMapLoop m ns j)
  then show ?thesis by (cases ns) simp_all
qed

lemma unchanged_refl [simp]: "unchanged s s"
  by (simp add: unchanged_def)

lemma unchanged_trans: "unchanged s t \<Longrightarrow> unchanged t u \<Longrightarrow> unchanged s u"
  by (auto simp: unchanged_def)

lemma unchanged_queue [simp]:
  "unchanged (s\<lparr>queue := q\<rparr>) t = unchanged s t"
  "unchanged s (t\<lparr>queue := q\<rparr>) = unchanged s t"
  by (simp_all add: unchanged_def)

lemma exec_unchanged: "unchanged s (step_state (exec i s))"
  by (auto simp: unchanged_def exec_frame split: option.splits)

lemma run_sync_unchanged:
  "run_sync n is s = Returned s' \<or> run_sync n is s = Threw e s' \<Longrightarrow> unchanged s s'"
proof (induction n "is" s rule: run_sync.induct)
  case (1 n s)
  then show ?case by simp
next
  case (2 i "is" s)
  then show ?case by simp
next
  case (3 n i "is" s)
  show ?case
  proof (cases "exec i s")
    case (Next js t)
    with 3 have "unchanged t s'" by simp
    moreover from Next exec_unchanged [of s i] have "unchanged s t" by simp
    ultimately show ?thesis by (rule unchanged_trans [rotated])
  next
    case (Throw x t)
    with 3 exec_unchanged [of s i] show ?thesis by auto
  qed
qed

lemma run_task_unchanged:
  "run_task n t s = Returned s' \<or> run_task n t s = Threw e s' \<Longrightarrow> unchanged s s'"
proof (cases t)
  case (Task d k err v)
  assume a: "run_task n t s = Returned s' \<or> run_task n t s = Threw e s'"
  show ?thesis
  proof (cases d)
    case 0
    with a Task run_sync_unchanged [of n "[ICallback k err v]" s s' e] show ?thesis by simp
  next
    case (Suc d')
    with a Task show ?thesis by auto
  qed
qed

lemma run_loop_unchanged:
  "run_loop n s = Returned s' \<or> run_loop n s = Threw e s' \<Longrightarrow> unchanged s s'"
proof (induction n arbitrary: s)
  case 0
  then show ?case by (simp split: if_splits)
next
  case (Suc n)
  show ?case
  proof (cases "queue s")
    case Nil
    with Suc.prems show ?thesis by simp
  next
    case (Cons t ts)
    show ?thesis
    proof (cases "run_task n t (s\<lparr>queue := ts\<rparr>)")
      case (Returned u)
      with Suc.prems Cons have "run_loop n u = Returned s' \<or> run_loop n u = Threw e s'" by simp
      then have "unchanged u s'" by (rule Suc.IH)
      moreover from run_task_unchanged [of n t "s\<lparr>queue := ts\<rparr>" u e] Returned
      have "unchanged s u" by simp
      ultimately show ?thesis by (rule unchanged_trans [rotated])
    next
      case (Threw x u)
      with Suc.prems Cons have "x = e \<and> u = s'" by simp
      with run_task_unchanged [of n t "s\<lparr>queue := ts\<rparr>" s' e] Threw show ?thesis by simp
    next
      case OutOfFuel
      with Suc.prems Cons show ?thesis by simp
    qed
  qed
qed

lemma resolve_and_wait_unchanged:
  "resolve_and_wait n name c s = Returned s' \<or> resolve_and_wait n name c s = Threw e s' \<Longrightarrow>
   unchanged s s'"
proof -
  assume a: "resolve_and_wait n name c s = Returned s' \<or> resolve_and_wait n name c s = Threw e s'"
  show ?thesis
  proof (cases "call_resolve n name c s")
    case (Returned u)
    with a have "run_loop n u = Returned s' \<or> run_loop n u = Threw e s'"
      by (simp add: resolve_and_wait_def)
    then have "unchanged u s'" by (rule run_loop_unchanged)
    moreover from Returned have "unchanged s u"
      using run_sync_unchanged [of n "[IResolve name (KTop c)]" s u e]
      by (simp add: call_resolve_def)
    ultimately show ?thesis by (rule unchanged_trans [rotated])
  next
    case (Threw x u)
    with a have "x = e \<and> u = s'" by (simp add: resolve_and_wait_def)
    with Threw run_sync_unchanged [of n "[IResolve name (KTop c)]" s s' e]
    show ?thesis by (simp add: call_resolve_def)
  next
    case OutOfFuel
    with a show ?thesis by (simp add: resolve_and_wait_def)
  qed
qed

text \<open>
  Every write to the cache is for a name registered as a singleton, as long as the
  callbacks still pending are in order; each step keeps them so.
\<close>

lemma cache_within_refl [simp]: "cache_within S s s"
  by (simp add: cache_within_def)

lemma cache_within_trans: "cache_within S s t \<Longrightarrow> cache_within S t u \<Longrightarrow> cache_within S s u"
  unfolding cache_within_def by metis

lemma cache_within_same: "the_instances s' = the_instances s \<Longrightarrow> cache_within S s s'"
  by (simp add: cache_within_def)

lemma fire_ok:
  assumes "pending_ok S s" and "m < length (maps s)"
      and "\<not> fired ms \<longrightarrow> cont_ok S (final ms)"
  shows "step_ok S s (fire m ms err s)"
proof -
  have "\<forall>x\<in>set ((maps s)[m := ms]). \<not> fired x \<longrightarrow> cont_ok S (final x)"
    using assms(1,3) by (auto simp: pending_ok_def dest!: set_update_subset_insert [THEN subsetD])
  moreover have "\<forall>x\<in>set ((maps s)[m := ms\<lparr>fired := True\<rparr>]). \<not> fired x \<longrightarrow> cont_ok S (final x)"
    using assms(1) by (auto simp: pending_ok_def dest!: set_update_subset_insert [THEN subsetD])
  ultimately show ?thesis
    using assms by (auto simp: step_ok_def fire_def pending_ok_def cache_within_def)
qed

lemma async_map_ok:
  assumes "pending_ok S s" and "cont_ok S k"
  shows "step_ok S s (async_map ns k s)"
proof (cases "ns = []")
  case True
  let ?ms = "\<lparr>results = [], completed = 0, total = length ns, fired = False, final = k\<rparr>"
  have "pending_ok S (s\<lparr>maps := maps s @ [?ms]\<rparr>)"
    using assms by (auto simp: pending_ok_def)
  from fire_ok [OF this, of "length (maps s)" ?ms Null] assms(2) True
  show ?thesis by (simp add: async_map_def step_ok_def fire_def cache_within_def pending_ok_def)
next
  case False
  with assms show ?thesis
    by (auto simp: async_map_def Let_def step_ok_def pending_ok_def cache_within_def)
qed

lemma map_item_ok:
  assumes "pending_ok S s"
  shows "step_ok S s (map_item m i err v s)"
proof (cases "m < length (maps s)")
  case False
  with assms show ?thesis by (simp add: map_item_def step_ok_def)
next
  case True
  let ?ms = "(maps s ! m)\<lparr>results := js_set (results (maps s ! m)) i v\<rparr>"
  from True have mem: "maps s ! m \<in> set (maps s)" by simp
  with assms have a: "\<not> fired ?ms \<longrightarrow> cont_ok S (final ?ms)"
    by (simp add: pending_ok_def)
  then have b: "\<not> fired (?ms\<lparr>completed := Suc (completed ?ms)\<rparr>) \<longrightarrow>
                cont_ok S (final (?ms\<lparr>completed := Suc (completed ?ms)\<rparr>))"
    by simp
  have c: "step_ok S s (Next [] (s\<lparr>maps := (maps s)[m := ?ms\<lparr>completed := Suc (completed ?ms)\<rparr>]\<rparr>))"
    using assms b
    by (auto simp: step_ok_def pending_ok_def cache_within_def
          dest!: set_update_subset_insert [THEN subsetD])
  show ?thesis
  proof (cases "truthy err")
    case e: True
    with True fire_ok [OF assms True a, of err] show ?thesis
      by (simp add: map_item_def Let_def)
  next
    case e: False
    show ?thesis
    proof (cases "Suc (completed ?ms) = total ?ms")
      case l: True
      from fire_ok [OF assms True b, of Null] True e l show ?thesis
        by (simp add: map_item_def Let_def del: mapstate.simps)
    next
      case l: False
      from c True e l show ?thesis by (simp add: map_item_def Let_def)
    qed
  qed
qed

lemma apply_async_ok:
  assumes "pending_ok S s" and "cont_ok S k"
  shows "step_ok S s (apply_async f args k s)"
  using assms
  by (auto simp: apply_async_def step_ok_def pending_ok_def cache_within_def record_call_def
      split: async_effect.split)

lemma invoke_ok:
  assumes "pending_ok S s" and "cont_ok S k"
  shows "step_ok S s (invoke fac k s)"
proof (cases fac)
  case (Direct f)
  with apply_async_ok [OF assms] show ?thesis by simp
next
  case (ViaCall f)
  with assms show ?thesis by (simp add: call_def step_ok_def)
next
  case (ViaCallSync f)
  with assms show ?thesis by (simp add: callSync_def step_ok_def)
next
  case (ViaCallCtor f)
  with assms show ?thesis by (simp add: callCtor_def step_ok_def)
next
  case (Instance v)
  with assms show ?thesis by (simp add: step_ok_def)
qed

lemma resolve_ok:
  assumes "pending_ok S s" and "cont_ok S k" and "S = singleton_names s"
  shows "step_ok S s (resolve name k s)"
proof (cases name)
  case (Names ns)
  with async_map_ok [OF assms(1,2)] show ?thesis by (simp add: resolve_def)
next
  case (Name n)
  show ?thesis
  proof (cases "the_registry s n")
    case None
    have "step_ok S s (Next [] (setImmediate k (unknown n) Undefined s))"
      using assms(1,2)
      by (auto simp: step_ok_def setImmediate_def pending_ok_def cache_within_def)
    with None Name async_map_ok [OF assms(1,2)] show ?thesis
      by (simp add: resolve_def split: option.split)
  next
    case (Some r)
    have "cont_ok S (KCache n (config_singleton (config r)) k)"
      using assms(2,3) Some by (auto simp: singleton_names_def)
    from invoke_ok [OF assms(1) this, of "factory r"]
    have "step_ok S s (invoke (factory r) (KCache n (config_singleton (config r)) k) s)" .
    moreover have "step_ok S s (Next [ICallback k Null w] s)" for w
      using assms(1,2) by (simp add: step_ok_def)
    ultimately show ?thesis using Some Name
      by (cases "config_singleton (config r)")
         (simp_all add: resolve_def Let_def split: option.split)
  qed
qed

lemma invoke_callback_ok:
  assumes "pending_ok S s" and "cont_ok S k"
  shows "step_ok S s (invoke_callback k err v s)"
proof (cases k)
  case (KTop c)
  with assms show ?thesis by (auto simp: step_ok_def pending_ok_def cache_within_def)
next
  case (KCache n b k')
  with assms show ?thesis by (auto simp: step_ok_def pending_ok_def cache_within_def)
next
  case (KCallSync f k')
  with assms show ?thesis
    by (auto simp: step_ok_def pending_ok_def cache_within_def apply_sync_def record_call_def
        split: sync_effect.split)
next
  case (KCallCtor f k')
  with assms show ?thesis
    by (auto simp: step_ok_def pending_ok_def cache_within_def construct_def record_call_def
        split: sync_effect.split)
next
  case (KCall f k')
  with assms apply_async_ok [of S s k' f "elems v"] show ?thesis
    by (auto simp: step_ok_def)
next
  case (KMapItem m i)
  with map_item_ok [OF assms(1)] show ?thesis by simp
qed

lemma exec_ok:
  assumes "pending_ok S s" and "instr_ok S i" and "S = singleton_names s"
  shows "step_ok S s (exec i s)"
proof (cases i)
  case (IResolve name k)
  with resolve_ok [OF assms(1) _ assms(3)] assms(2) show ?thesis by simp
next
  case (ICallback k err v)
  with invoke_callback_ok [OF assms(1)] assms(2) show ?thesis by simp
next
  case (IMapLoop m ns j)
  with assms(1) show ?thesis by (cases ns) (simp_all add: step_ok_def)
qed

lemma singleton_names_unchanged:
  "unchanged s s' \<Longrightarrow> singleton_names s' = singleton_names s"
  by (auto simp: unchanged_def singleton_names_def fun_eq_iff)

lemma run_sync_ok:
  assumes "run_sync n is s = Returned s' \<or> run_sync n is s = Threw e s'"
      and "pending_ok S s" and "\<forall>i\<in>set is. instr_ok S i" and "S = singleton_names s"
  shows "pending_ok S s' \<and> cache_within S s s'"
  using assms
proof (induction n "is" s rule: run_sync.induct)
  case (1 n s)
  then show ?case by simp
next
  case (2 i "is" s)
  then show ?case by simp
next
  case (3 n i "is" s)
  from "3.prems" have io: "instr_ok S i" by simp
  from exec_ok [OF "3.prems"(2) io "3.prems"(4)] have ok: "step_ok S s (exec i s)" .
  show ?case
  proof (cases "exec i s")
    case (Next js t)
    with ok have p: "pending_ok S t" and j: "\<forall>j\<in>set js. instr_ok S j"
      and c: "cache_within S s t"
      by (simp_all add: step_ok_def)
    from Next exec_unchanged [of s i] have "unchanged s t" by simp
    with "3.prems"(4) have S: "S = singleton_names t"
      by (simp add: singleton_names_unchanged)
    from "3.prems"(1) Next have r: "run_sync n (js @ is) t = Returned s' \<or>
                                    run_sync n (js @ is) t = Threw e s'" by simp
    from j "3.prems"(3) have "\<forall>i\<in>set (js @ is). instr_ok S i" by auto
    from "3.IH" [OF Next r p this S] c show ?thesis
      by (auto intro: cache_within_trans)
  next
    case (Throw x t)
    with ok "3.prems"(1) show ?thesis by (auto simp: step_ok_def)
  qed
qed

lemma run_task_ok:
  assumes "run_task n t s = Returned s' \<or> run_task n t s = Threw e s'"
      and "pending_ok S s" and "task_ok S t" and "S = singleton_names s"
  shows "pending_ok S s' \<and> cache_within S s s'"
proof (cases t)
  case (Task d k err v)
  show ?thesis
  proof (cases d)
    case 0
    with Task assms run_sync_ok [of n "[ICallback k err v]" s s' e S] show ?thesis by simp
  next
    case (Suc d')
    with Task assms show ?thesis by (auto simp: pending_ok_def cache_within_def)
  qed
qed

lemma run_loop_ok:
  assumes "run_loop n s = Returned s' \<or> run_loop n s = Threw e s'"
      and "pending_ok S s" and "S = singleton_names s"
  shows "pending_ok S s' \<and> cache_within S s s'"
  using assms
proof (induction n arbitrary: s)
  case 0
  then show ?case by (simp split: if_splits)
next
  case (Suc n)
  show ?case
  proof (cases "queue s")
    case Nil
    with Suc.prems show ?thesis by simp
  next
    case (Cons t ts)
    let ?s0 = "s\<lparr>queue := ts\<rparr>"
    from Suc.prems(2) Cons have p0: "pending_ok S ?s0" and t: "task_ok S t"
      by (simp_all add: pending_ok_def)
    from Suc.prems(3) have S0: "S = singleton_names ?s0" by (simp add: singleton_names_def fun_eq_iff)
    have c0: "cache_within S s ?s0" by (simp add: cache_within_def)
    show ?thesis
    proof (cases "run_task n t ?s0")
      case (Returned u)
      from run_task_ok [OF _ p0 t S0, of n u e] Returned
      have pu: "pending_ok S u" and cu: "cache_within S ?s0 u" by simp_all
      from run_task_unchanged [of n t ?s0 u e] Returned have "unchanged ?s0 u" by simp
      with S0 have Su: "S = singleton_names u" by (simp add: singleton_names_unchanged)
      from Suc.prems(1) Cons Returned
      have "run_loop n u = Returned s' \<or> run_loop n u = Threw e s'" by simp
      from Suc.IH [OF this pu Su] cu c0 show ?thesis
        by (auto intro: cache_within_trans)
    next
      case (Threw x u)
      with Suc.prems(1) Cons have "x = e \<and> u = s'" by simp
      with run_task_ok [OF _ p0 t S0, of n s' e] Threw c0 show ?thesis
        by (auto intro: cache_within_trans)
    next
      case OutOfFuel
      with Suc.prems(1) Cons show ?thesis by simp
    qed
  qed
qed

lemma resolve_and_wait_ok:
  assumes "resolve_and_wait n name c s = Returned s' \<or> resolve_and_wait n name c s = Threw e s'"
      and "pending_ok (singleton_names s) s"
  shows "cache_within (singleton_names s) s s'"
proof (cases "call_resolve n name c s")
  case (Returned u)
  let ?S = "singleton_names s"
  from Returned run_sync_ok [of n "[IResolve name (KTop c)]" s u e ?S] assms(2)
  have pu: "pending_ok ?S u" and cu: "cache_within ?S s u"
    by (simp_all add: call_resolve_def)
  from Returned run_sync_unchanged [of n "[IResolve name (KTop c)]" s u e]
  have "unchanged s u" by (simp add: call_resolve_def)
  then have Su: "?S = singleton_names u" by (simp add: singleton_names_unchanged)
  from assms(1) Returned have "run_loop n u = Returned s' \<or> run_loop n u = Threw e s'"
    by (simp add: resolve_and_wait_def)
  from run_loop_ok [OF this pu Su] cu show ?thesis by (auto intro: cache_within_trans)
next
  case (Threw x u)
  with assms(1) have "x = e \<and> u = s'" by (simp add: resolve_and_wait_def)
  with Threw run_sync_ok [of n "[IResolve name (KTop c)]" s s' e "singleton_names s"] assms(2)
  show ?thesis by (simp add: call_resolve_def)
next
  case OutOfFuel
  with assms(1) show ?thesis by (simp add: resolve_and_wait_def)
qed

text \<open>
  C10. A call of \<^verbatim>\<open>resolve\<close>, for a name, a list of names or an interface name, up to
  its return and also up to the end of everything it scheduled, leaves the registry and
  the interface index as they were, whether it returns or throws. The one pending call
  that writes to the instance cache is the callback \<^verbatim>\<open>resolve\<close> passes to the factory
  of a singleton, called without an error: it stores the instance it receives under
  the name resolved. Over the whole resolution, the cache changes only at names
  registered as singletons. And the four registration operations leave the instance
  cache as it was.
\<close>

theorem resolution_and_registration_frames:
  "((call_resolve n name c s = Returned s' \<or> call_resolve n name c s = Threw e s') \<longrightarrow>
      the_registry s' = the_registry s \<and> the_interfaces s' = the_interfaces s) \<and>
   ((resolve_and_wait n name c s = Returned s'' \<or> resolve_and_wait n name c s = Threw e s'') \<longrightarrow>
      the_registry s'' = the_registry s \<and> the_interfaces s'' = the_interfaces s) \<and>
   the_instances (step_state (exec i s)) =
     (case cache_write i of
        Some (m, v) \<Rightarrow> (the_instances s)(m \<mapsto> v)
      | None \<Rightarrow> the_instances s) \<and>
   (pending_ok (singleton_names s) s \<longrightarrow>
    (resolve_and_wait n name c s = Returned s'' \<or> resolve_and_wait n name c s = Threw e s'') \<longrightarrow>
      (\<forall>x. the_instances s'' x \<noteq> the_instances s x \<longrightarrow>
           (\<exists>r. the_registry s x = Some r \<and> config_singleton (config r)))) \<and>
   (register nm fa opts s = Inr t1 \<longrightarrow> the_instances t1 = the_instances s) \<and>
   (registerSync nm fs opts s = Inr t2 \<longrightarrow> the_instances t2 = the_instances s) \<and>
   (registerCtor nm fs opts s = Inr t3 \<longrightarrow> the_instances t3 = the_instances s) \<and>
   (registerInstance nm inst opts s = Inr t4 \<longrightarrow> the_instances t4 = the_instances s)"
proof (intro conjI impI)
  assume "call_resolve n name c s = Returned s' \<or> call_resolve n name c s = Threw e s'"
  then have u: "unchanged s s'"
    using run_sync_unchanged [of n "[IResolve name (KTop c)]" s s' e]
    by (simp add: call_resolve_def)
  from u show "the_registry s' = the_registry s" by (simp add: unchanged_def)
  from u show "the_interfaces s' = the_interfaces s" by (simp add: unchanged_def)
next
  assume "resolve_and_wait n name c s = Returned s'' \<or> resolve_and_wait n name c s = Threw e s''"
  then have u: "unchanged s s''" by (rule resolve_and_wait_unchanged)
  from u show "the_registry s'' = the_registry s" by (simp add: unchanged_def)
  from u show "the_interfaces s'' = the_interfaces s" by (simp add: unchanged_def)
next
  show "the_instances (step_state (exec i s)) =
     (case cache_write i of
        Some (m, v) \<Rightarrow> (the_instances s)(m \<mapsto> v)
      | None \<Rightarrow> the_instances s)"
    by (simp add: exec_frame)
next
  assume "pending_ok (singleton_names s) s"
    and "resolve_and_wait n name c s = Returned s'' \<or> resolve_and_wait n name c s = Threw e s''"
  from resolve_and_wait_ok [OF this(2) this(1)]
  show "\<forall>x. the_instances s'' x \<noteq> the_instances s x \<longrightarrow>
           (\<exists>r. the_registry s x = Some r \<and> config_singleton (config r))"
    by (simp add: cache_within_def singleton_names_def)
next
  assume "register nm fa opts s = Inr t1"
  then show "the_instances t1 = the_instances s"
    by (cases fa) (auto simp: register_def split: option.splits if_splits)
next
  assume "registerSync nm fs opts s = Inr t2"
  then show "the_instances t2 = the_instances s"
    by (cases fs) (auto simp: registerSync_def split: option.splits)
next
  assume "registerCtor nm fs opts s = Inr t3"
  then show "the_instances t3 = the_instances s"
    by (cases fs) (auto simp: registerCtor_def split: option.splits)
next
  assume "registerInstance nm inst opts s = Inr t4"
  then show "the_instances t4 = the_instances s"
    by (auto simp: registerInstance_def split: option.splits if_splits)
qed

theorem resolution_and_registration_frames_witness:
  "resolve_and_wait 10 (Name ''service'') 1 readme_singleton = Returned readme_resolved \<and>
   the_registry readme_resolved = the_registry readme_singleton \<and>
   the_interfaces readme_resolved = the_interfaces readme_singleton \<and>
   the_instances readme_singleton ''service'' = None \<and>
   the_instances readme_resolved ''service'' = Some (Num 1) \<and>
   pending_ok (singleton_names readme_singleton) readme_singleton \<and>
   the_registry readme_singleton ''other'' = None \<and>
   the_instances readme_resolved ''other'' = the_instances readme_singleton ''other'' \<and>
   registerInstance (Str ''service'') (Num 5) None readme_resolved = Inr readme_replaced \<and>
   the_instances readme_replaced = the_instances readme_resolved"
proof -
  have a: "resolve_and_wait 10 (Name ''service'') 1 readme_singleton = Returned readme_resolved"
    by (simp add: readme_resolved_def readme_singleton_def counting_from_def
          run_defs reg_defs eval_nat_numeral)
  have b: "registerInstance (Str ''service'') (Num 5) None readme_resolved = Inr readme_replaced"
    by (simp add: registerInstance_def readme_replaced_def)
  have i0: "the_instances readme_singleton ''service'' = None"
    by (simp add: readme_singleton_def run_defs reg_defs)
  have i1: "the_instances readme_resolved ''service'' = Some (Num 1)"
    by (simp add: readme_resolved_def readme_singleton_def counting_from_def
          run_defs reg_defs eval_nat_numeral)
  have p: "pending_ok (singleton_names readme_singleton) readme_singleton"
    by (simp add: pending_ok_def readme_singleton_def run_defs reg_defs)
  have o: "the_registry readme_singleton ''other'' = None"
    by (simp add: readme_singleton_def run_defs reg_defs)
  note f = resolution_and_registration_frames
    [where n = 10 and name = "Name ''service''" and c = 1 and s = readme_singleton
       and s'' = readme_resolved]
  from f a
  have r: "the_registry readme_resolved = the_registry readme_singleton \<and>
           the_interfaces readme_resolved = the_interfaces readme_singleton"
    by simp
  from f a p
  have "\<forall>x. the_instances readme_resolved x \<noteq> the_instances readme_singleton x \<longrightarrow>
           (\<exists>r. the_registry readme_singleton x = Some r \<and> config_singleton (config r))"
    by simp
  with o have w: "the_instances readme_resolved ''other'' = the_instances readme_singleton ''other''"
    by force
  from resolution_and_registration_frames
    [where nm = "Str ''service''" and inst = "Num 5" and opts = None and s = readme_resolved
       and ?t4.0 = readme_replaced]
    b
  have g: "the_instances readme_replaced = the_instances readme_resolved"
    by simp
  from a b i0 i1 p o w r g show ?thesis by simp
qed

section \<open>Running without counting fuel\<close>

lemma advances_refl: "advances is s is s"
  unfolding advances_def by (rule exI [of _ 0]) simp

lemma advances_step:
  assumes "exec i s = Next js s'"
  shows "advances (i # is) s (js @ is) s'"
  unfolding advances_def using assms by (intro exI [of _ "Suc 0"]) simp

lemma advances_trans:
  assumes "advances is s is' s'" and "advances is' s' is'' s''"
  shows "advances is s is'' s''"
proof -
  from assms(1) obtain N1 where
    1: "\<And>m rest. run_sync (N1 + m) (is @ rest) s = run_sync m (is' @ rest) s'"
    unfolding advances_def by blast
  from assms(2) obtain N2 where
    2: "\<And>m rest. run_sync (N2 + m) (is' @ rest) s' = run_sync m (is'' @ rest) s''"
    unfolding advances_def by blast
  have "\<forall>m rest. run_sync ((N1 + N2) + m) (is @ rest) s = run_sync m (is'' @ rest) s''"
    using 1 [of "N2 + _"] 2 by (simp add: add.assoc)
  then show ?thesis unfolding advances_def by blast
qed

lemma advances_append:
  assumes "advances is s is' s'"
  shows "advances (is @ r) s (is' @ r) s'"
proof -
  from assms obtain N where
    1: "\<And>m rest. run_sync (N + m) (is @ rest) s = run_sync m (is' @ rest) s'"
    unfolding advances_def by blast
  have "\<forall>m rest. run_sync (N + m) ((is @ r) @ rest) s = run_sync m ((is' @ r) @ rest) s'"
    using 1 [of _ "r @ _"] by simp
  then show ?thesis unfolding advances_def by blast
qed

lemma advances_cons:
  assumes "exec i s = Next js t" and "advances (js @ is) t is' s'"
  shows "advances (i # is) s is' s'"
  using advances_trans [OF advances_step [OF assms(1)] assms(2)] .

lemma advances_returns:
  assumes "advances is s [] s'"
  shows "\<exists>N. \<forall>m. run_sync (N + m) is s = Returned s'"
proof -
  from assms obtain N where
    1: "\<And>m rest. run_sync (N + m) (is @ rest) s = run_sync m ([] @ rest) s'"
    unfolding advances_def by blast
  have "\<forall>m. run_sync (N + m) is s = Returned s'"
    using 1 [of _ "[]"] by simp
  then show ?thesis by blast
qed

lemma settles_idle: "queue s = [] \<Longrightarrow> settles s s"
proof -
  assume q: "queue s = []"
  have "\<forall>m. run_loop (0 + m) s = Returned s"
  proof
    fix m show "run_loop (0 + m) s = Returned s" using q by (cases m) simp_all
  qed
  then show ?thesis unfolding settles_def by blast
qed

lemma settles_delay:
  assumes "queue s = Task (Suc d) k e v # ts"
      and "settles (s\<lparr>queue := ts @ [Task d k e v]\<rparr>) s'"
  shows "settles s s'"
proof -
  from assms(2) obtain N where
    1: "\<And>m. run_loop (N + m) (s\<lparr>queue := ts @ [Task d k e v]\<rparr>) = Returned s'"
    unfolding settles_def by blast
  have "\<forall>m. run_loop (Suc N + m) s = Returned s'"
    using assms(1) 1 by simp
  then show ?thesis unfolding settles_def by blast
qed

lemma settles_task:
  assumes "queue s = Task 0 k e v # ts"
      and "advances [ICallback k e v] (s\<lparr>queue := ts\<rparr>) [] u"
      and "settles u s'"
  shows "settles s s'"
proof -
  from advances_returns [OF assms(2)] obtain N1 where
    1: "\<And>m. run_sync (N1 + m) [ICallback k e v] (s\<lparr>queue := ts\<rparr>) = Returned u"
    by blast
  from assms(3) obtain N2 where
    2: "\<And>m. run_loop (N2 + m) u = Returned s'"
    unfolding settles_def by blast
  have "\<forall>m. run_loop (Suc (N1 + N2) + m) s = Returned s'"
  proof
    fix m
    have a: "run_task (N1 + (N2 + m)) (Task 0 k e v) (s\<lparr>queue := ts\<rparr>) = Returned u"
      using 1 by simp
    have b: "run_loop (N2 + (N1 + m)) u = Returned s'" using 2 by simp
    have c: "N1 + N2 + m = N1 + (N2 + m)" "N1 + N2 + m = N2 + (N1 + m)" by simp_all
    show "run_loop (Suc (N1 + N2) + m) s = Returned s'"
      using assms(1) a b by (simp add: c(1)) (simp add: add.commute add.left_commute)
  qed
  then show ?thesis unfolding settles_def by blast
qed

lemma resolve_and_wait_settles:
  assumes "advances [IResolve name (KTop c)] s [] u" and "settles u s'"
  shows "\<exists>N. \<forall>m. resolve_and_wait (N + m) name c s = Returned s'"
proof -
  from advances_returns [OF assms(1)] obtain N1 where
    1: "\<And>m. run_sync (N1 + m) [IResolve name (KTop c)] s = Returned u"
    by blast
  from assms(2) obtain N2 where
    2: "\<And>m. run_loop (N2 + m) u = Returned s'"
    unfolding settles_def by blast
  have "\<forall>m. resolve_and_wait ((N1 + N2) + m) name c s = Returned s'"
  proof
    fix m
    have a: "run_sync (N1 + (N2 + m)) [IResolve name (KTop c)] s = Returned u" using 1 by simp
    have "run_loop (N2 + (N1 + m)) u = Returned s'" using 2 by simp
    then have b: "run_loop (N1 + (N2 + m)) u = Returned s'" by (simp add: add.left_commute)
    have c: "N1 + N2 + m = N1 + (N2 + m)" by simp
    show "resolve_and_wait ((N1 + N2) + m) name c s = Returned s'"
      unfolding resolve_and_wait_def call_resolve_def c a using b by simp
  qed
  then show ?thesis by blast
qed

section \<open>Resolving a name that is served\<close>

lemma leaf_step_refl: "leaf_step n v s s"
  by (simp add: leaf_step_def)

lemma leaf_step_serves:
  assumes "leaf_step n (val n) s s'" and "serves s n' (val n')"
  shows "serves s' n' (val n')"
  using assms by (auto simp: leaf_step_def serves_def)

lemma leaf_step_map:
  assumes "leaf_step n v s s'" and "m < length (maps s)"
  shows "m < length (maps s') \<and> maps s' ! m = maps s ! m"
proof -
  from assms(1) have t: "take (length (maps s)) (maps s') = maps s"
    and l: "length (maps s) \<le> length (maps s')"
    by (simp_all add: leaf_step_def)
  from assms(2) l have "m < length (maps s')" by simp
  moreover have "maps s' ! m = take (length (maps s)) (maps s') ! m"
    using assms(2) by simp
  ultimately show ?thesis using t by simp
qed

text \<open>The cache does not answer: the stored factory is called.\<close>

lemma resolve_creates:
  assumes "the_registry s n = Some r"
      and "\<not> (config_singleton (config r) \<and> (\<exists>w. the_instances s n = Some w \<and> truthy w))"
  shows "exec (IResolve (Name n) K) s =
           invoke (factory r) (KCache n (config_singleton (config r)) K) s"
  using assms by (auto simp: resolve_def Let_def split: option.splits)

lemma resolve_cached:
  assumes "the_registry s n = Some r" and "config_singleton (config r)"
      and "the_instances s n = Some w" and "truthy w"
  shows "exec (IResolve (Name n) K) s = Next [ICallback K Null w] s"
  using assms by (simp add: resolve_def Let_def)

lemma cache_callback:
  assumes "\<not> truthy e"
  shows "exec (ICallback (KCache n b K) e v) s =
           Next [ICallback K Null v]
             (if b then s\<lparr>the_instances := (the_instances s)(n \<mapsto> v)\<rparr> else s)"
  using assms by simp

lemma cache_callback_leaf_step:
  "leaf_step n v s (if b then s\<lparr>the_instances := (the_instances s)(n \<mapsto> v)\<rparr> else s)"
  by (simp add: leaf_step_def)

text \<open>
  Resolving a served name either hands \<open>v\<close> to the callback within the turn, or leaves
  one task that will.
\<close>

lemma leaf_resolve:
  assumes "serves s n v"
  shows "\<exists>s1. leaf_step n v s s1 \<and>
           ((advances [IResolve (Name n) K] s [ICallback K Null v] s1 \<and> queue s1 = queue s) \<or>
            (\<exists>d b e. \<not> truthy e \<and> advances [IResolve (Name n) K] s [] s1 \<and>
                queue s1 = queue s @ [Task d (KCache n b K) e v]))"
proof -
  from assms obtain r where r: "the_registry s n = Some r"
    and p: "produces (factory r) v"
    and c: "config_singleton (config r) \<longrightarrow>
              (\<forall>w. the_instances s n = Some w \<longrightarrow> truthy w \<longrightarrow> w = v)"
    unfolding serves_def by blast
  let ?b = "config_singleton (config r)"
  let ?K = "KCache n ?b K"
  let ?upd = "\<lambda>t. if ?b then t\<lparr>the_instances := (the_instances t)(n \<mapsto> v)\<rparr> else t"
  show ?thesis
  proof (cases "?b \<and> (\<exists>w. the_instances s n = Some w \<and> truthy w)")
    case True
    then obtain w where w: "the_instances s n = Some w" "truthy w" by blast
    with c True have "w = v" by simp
    with resolve_cached [OF r _ w] True
    have "exec (IResolve (Name n) K) s = Next [ICallback K Null v] s" by simp
    from advances_step [OF this, of "[]"]
    have "advances [IResolve (Name n) K] s [ICallback K Null v] s" by simp
    with leaf_step_refl show ?thesis by blast
  next
    case False
    from resolve_creates [OF r False]
    have e: "exec (IResolve (Name n) K) s = invoke (factory r) ?K s" .
    show ?thesis
    proof (cases "factory r")
      case (Instance w)
      with p have "w = v" by simp
      with e Instance have 1: "exec (IResolve (Name n) K) s = Next [ICallback ?K Null v] s"
        by simp
      have 2: "exec (ICallback ?K Null v) s = Next [ICallback K Null v] (?upd s)"
        by simp
      have "advances [IResolve (Name n) K] s [ICallback K Null v] (?upd s)"
        using advances_cons [OF 1, of "[]"] advances_step [OF 2, of "[]"] by simp
      moreover have "leaf_step n v s (?upd s)" by (simp add: leaf_step_def)
      moreover have "queue (?upd s) = queue s" by simp
      ultimately show ?thesis by blast
    next
      case (Direct f)
      let ?t = "record_call (fid f) [] s"
      from p Direct have "\<exists>d x. \<not> truthy x \<and>
                (behave f [] (count_calls (fid f) s) = Calls x v \<or>
                 behave f [] (count_calls (fid f) s) = Later d x v)"
        by simp
      then obtain d x where x: "\<not> truthy x"
        and bh: "behave f [] (count_calls (fid f) s) = Calls x v \<or>
                 behave f [] (count_calls (fid f) s) = Later d x v"
        by blast
      from bh show ?thesis
      proof
        assume "behave f [] (count_calls (fid f) s) = Calls x v"
        with e Direct have 1: "exec (IResolve (Name n) K) s = Next [ICallback ?K x v] ?t"
          by (simp add: apply_async_def)
        have 2: "exec (ICallback ?K x v) ?t = Next [ICallback K Null v] (?upd ?t)"
          using x by simp
        have "advances [IResolve (Name n) K] s [ICallback K Null v] (?upd ?t)"
          using advances_cons [OF 1, of "[]"] advances_step [OF 2, of "[]"] by simp
        moreover have "leaf_step n v s (?upd ?t)" by (simp add: leaf_step_def record_call_def)
        moreover have "queue (?upd ?t) = queue s" by (simp add: record_call_def)
        ultimately show ?thesis by blast
      next
        assume "behave f [] (count_calls (fid f) s) = Later d x v"
        with e Direct have 1: "exec (IResolve (Name n) K) s =
            Next [] (?t\<lparr>queue := queue s @ [Task d ?K x v]\<rparr>)"
          by (simp add: apply_async_def)
        let ?u = "?t\<lparr>queue := queue s @ [Task d ?K x v]\<rparr>"
        have "advances [IResolve (Name n) K] s [] ?u"
          using advances_step [OF 1, of "[]"] by simp
        moreover have "leaf_step n v s ?u" by (simp add: leaf_step_def record_call_def)
        moreover have "queue ?u = queue s @ [Task d ?K x v]" by simp
        ultimately show ?thesis using x by blast
      qed
    next
      case (ViaCallSync f)
      with p have deps: "getDependenciesNames f False = []"
        and bh: "\<And>args k. behave f args k = Returns v" by simp_all
      let ?KS = "KCallSync f ?K"
      let ?ms = "\<lparr>results = [], completed = 0, total = 0, fired = True, final = ?KS\<rparr>"
      let ?t = "s\<lparr>maps := maps s @ [?ms]\<rparr>"
      let ?u = "record_call (fid f) [] ?t"
      from e ViaCallSync deps
      have 1: "exec (IResolve (Name n) K) s = Next [IResolve (Names []) ?KS] s"
        by (simp add: callSync_def)
      have 2: "exec (IResolve (Names []) ?KS) s = Next [ICallback ?KS Null (Arr [])] ?t"
        by (simp add: resolve_def async_map_def fire_def)
      have 3: "exec (ICallback ?KS Null (Arr [])) ?t = Next [ICallback ?K Null v] ?u"
        using bh by (simp add: apply_sync_def)
      have 4: "exec (ICallback ?K Null v) ?u = Next [ICallback K Null v] (?upd ?u)"
        by simp
      have "advances [IResolve (Name n) K] s [ICallback K Null v] (?upd ?u)"
        using advances_cons [OF 1, of "[]"] advances_cons [OF 2, of "[]"]
          advances_cons [OF 3, of "[]"] advances_step [OF 4, of "[]"] by simp
      moreover have "leaf_step n v s (?upd ?u)" by (simp add: leaf_step_def record_call_def)
      moreover have "queue (?upd ?u) = queue s" by (simp add: record_call_def)
      ultimately show ?thesis by blast
    next
      case (ViaCall f)
      with p show ?thesis by simp
    next
      case (ViaCallCtor f)
      with p show ?thesis by simp
    qed
  qed
qed

section \<open>The results of the async library's map\<close>

lemma length_js_set: "length (js_set xs i v) = max (length xs) (Suc i)"
  by (simp add: js_set_def)

lemma nth_js_set_eq: "js_set xs i v ! i = v"
  by (simp add: js_set_def nth_append)

lemma nth_js_set_neq: "j \<noteq> i \<Longrightarrow> j < length xs \<Longrightarrow> js_set xs i v ! j = xs ! j"
  by (simp add: js_set_def nth_append)

lemma all_results_in_place:
  assumes "length rs \<le> length ns" and "j < length ns"
      and "\<forall>i<length ns. i \<noteq> j \<longrightarrow> i < length rs \<and> rs ! i = val (ns ! i)"
  shows "js_set rs j (val (ns ! j)) = map val ns"
proof (rule nth_equalityI)
  show len: "length (js_set rs j (val (ns ! j))) = length (map val ns)"
  proof (cases "Suc j = length ns")
    case True
    with assms(1) show ?thesis by (simp add: length_js_set)
  next
    case False
    with assms(2) have "length ns - 1 < length ns" "length ns - 1 \<noteq> j" by arith+
    with assms(3) have "length ns - 1 < length rs" by blast
    with assms(1,2) show ?thesis by (simp add: length_js_set)
  qed
  fix i assume "i < length (js_set rs j (val (ns ! j)))"
  with len have i: "i < length ns" by simp
  show "js_set rs j (val (ns ! j)) ! i = map val ns ! i"
  proof (cases "i = j")
    case True
    with i show ?thesis by (simp add: nth_js_set_eq)
  next
    case False
    with assms(3) i have "i < length rs" "rs ! i = val (ns ! i)" by blast+
    with False i show ?thesis by (simp add: nth_js_set_neq)
  qed
qed

lemma map_item_done:
  assumes m: "m < length (maps s)"
      and ok: "map_ok k ns val opn (maps s ! m)"
      and j: "j \<in> opn"
      and e: "\<not> truthy e"
  shows "\<exists>ms'. exec (ICallback (KMapItem m j) e (val (ns ! j))) s =
                 Next (if opn = {j} then [ICallback k Null (Arr (map val ns))] else [])
                      (s\<lparr>maps := (maps s)[m := ms']\<rparr>) \<and>
               (opn \<noteq> {j} \<longrightarrow> map_ok k ns val (opn - {j}) ms')"
proof -
  let ?ms = "maps s ! m"
  let ?rs = "js_set (results ?ms) j (val (ns ! j))"
  from ok have fin: "final ?ms = k" and tot: "total ?ms = length ns"
    and nf: "\<not> fired ?ms" and sub: "opn \<subseteq> {..<length ns}"
    and cnt: "completed ?ms + card opn = length ns"
    and len: "length (results ?ms) \<le> length ns"
    and res: "\<forall>i<length ns. i \<notin> opn \<longrightarrow>
                i < length (results ?ms) \<and> results ?ms ! i = val (ns ! i)"
    by (simp_all add: map_ok_def)
  from sub have finite: "finite opn" by (rule finite_subset) simp
  from sub j have jl: "j < length ns" by auto
  have one: "(Suc (completed ?ms) = length ns) = (opn = {j})"
  proof
    assume "Suc (completed ?ms) = length ns"
    with cnt have "card opn = 1" by simp
    then obtain x where "opn = {x}" by (auto simp: card_1_singleton_iff)
    with j show "opn = {j}" by simp
  next
    assume "opn = {j}"
    with cnt show "Suc (completed ?ms) = length ns" by simp
  qed
  show ?thesis
  proof (cases "opn = {j}")
    case True
    with res have "\<forall>i<length ns. i \<noteq> j \<longrightarrow>
                i < length (results ?ms) \<and> results ?ms ! i = val (ns ! i)"
      by simp
    from all_results_in_place [OF len jl this] have rs: "?rs = map val ns" .
    let ?ms' = "?ms\<lparr>results := ?rs, completed := Suc (completed ?ms), fired := True\<rparr>"
    have "exec (ICallback (KMapItem m j) e (val (ns ! j))) s =
            Next [ICallback k Null (Arr (map val ns))] (s\<lparr>maps := (maps s)[m := ?ms']\<rparr>)"
      using m e True one tot nf fin rs by (simp add: map_item_def Let_def fire_def)
    with True show ?thesis by auto
  next
    case False
    let ?ms' = "?ms\<lparr>results := ?rs, completed := Suc (completed ?ms)\<rparr>"
    have x: "exec (ICallback (KMapItem m j) e (val (ns ! j))) s =
            Next [] (s\<lparr>maps := (maps s)[m := ?ms']\<rparr>)"
      using m e False one tot by (simp add: map_item_def Let_def)
    have c: "card (opn - {j}) = card opn - 1" using j finite by simp
    have "card opn > 0" using j finite by (auto simp: card_gt_0_iff)
    with c cnt have cnt': "Suc (completed ?ms) + card (opn - {j}) = length ns" by simp
    have len': "length ?rs \<le> length ns" using len jl by (simp add: length_js_set)
    have res': "\<forall>i<length ns. i \<notin> opn - {j} \<longrightarrow> i < length ?rs \<and> ?rs ! i = val (ns ! i)"
    proof (intro allI impI)
      fix i assume i: "i < length ns" and n: "i \<notin> opn - {j}"
      show "i < length ?rs \<and> ?rs ! i = val (ns ! i)"
      proof (cases "i = j")
        case True
        then show ?thesis by (simp add: length_js_set nth_js_set_eq)
      next
        case False
        with n have "i \<notin> opn" by simp
        with res i have "i < length (results ?ms)" "results ?ms ! i = val (ns ! i)" by blast+
        with False show ?thesis by (simp add: length_js_set nth_js_set_neq)
      qed
    qed
    have "map_ok k ns val (opn - {j}) ?ms'"
      using fin tot nf sub cnt' len' res' by (auto simp: map_ok_def)
    with x False show ?thesis by auto
  qed
qed

section \<open>Resolving a list of names that are served\<close>

lemma open_after_start:
  assumes "i < n" and "\<forall>j\<in>set js. j < i"
  shows "set (js @ [i]) \<union> {Suc i..<n} = set js \<union> {i..<n}"
    and "(set js \<union> {i..<n}) - {i} = set js \<union> {Suc i..<n}"
    and "(set js \<union> {i..<n} = {i}) = (js = [] \<and> Suc i = n)"
proof -
  from assms(1) have a: "{i..<n} = insert i {Suc i..<n}" by auto
  show "set (js @ [i]) \<union> {Suc i..<n} = set js \<union> {i..<n}" using a by auto
  from assms(2) have b: "i \<notin> set js" by auto
  show "(set js \<union> {i..<n}) - {i} = set js \<union> {Suc i..<n}" using a b by auto
  show "(set js \<union> {i..<n} = {i}) = (js = [] \<and> Suc i = n)"
  proof
    assume h: "set js \<union> {i..<n} = {i}"
    then have "set js \<subseteq> {i}" by blast
    with b have "js = []" by (cases js) auto
    then have "set js = {}" by simp
    moreover have "Suc i = n"
    proof (rule ccontr)
      assume "Suc i \<noteq> n"
      with assms(1) have "Suc i \<in> set js \<union> {i..<n}" by simp
      with h have "Suc i \<in> {i}" by simp
      then show False by simp
    qed
    ultimately show "js = [] \<and> Suc i = n" by simp
  next
    assume "js = [] \<and> Suc i = n"
    then show "set js \<union> {i..<n} = {i}" by auto
  qed
qed

lemma serves_maps [simp]: "serves (s\<lparr>maps := x\<rparr>) n v = serves s n v"
  by (simp add: serves_def)

lemma serves_queue [simp]: "serves (s\<lparr>queue := x\<rparr>) n v = serves s n v"
  by (simp add: serves_def)

lemma serves_log [simp]: "serves (s\<lparr>log := x\<rparr>) n v = serves s n v"
  by (simp add: serves_def)

text \<open>Starting item \<open>i\<close> of the map.\<close>

lemma dispatch_item:
  assumes inv: "map_inv m k ns val i js s" and i: "i < length ns"
  shows "\<exists>s1. log s1 = log s \<and> the_registry s1 = the_registry s \<and>
           the_interfaces s1 = the_interfaces s \<and>
           ((advances [IResolve (Name (ns ! i)) (KMapItem m i)] s [] s1 \<and>
             (map_inv m k ns val (Suc i) js s1 \<or> map_inv m k ns val (Suc i) (js @ [i]) s1)) \<or>
            (advances [IResolve (Name (ns ! i)) (KMapItem m i)] s
               [ICallback k Null (Arr (map val ns))] s1 \<and>
             Suc i = length ns \<and> queue s1 = []))"
proof -
  let ?n = "ns ! i" and ?K = "KMapItem m i"
  let ?opn = "set js \<union> {i..<length ns}"
  from inv have m: "m < length (maps s)"
    and ok: "map_ok k ns val ?opn (maps s ! m)"
    and dist: "distinct js" and low: "\<forall>j\<in>set js. j < i"
    and q: "list_all2 (awaiting m ns val) (queue s) js"
    and srv: "\<forall>n\<in>set ns. serves s n (val n)"
    by (simp_all add: map_inv_def)
  from i srv have "serves s ?n (val ?n)" by simp
  from leaf_resolve [OF this, of ?K] obtain s1 where
    ls: "leaf_step ?n (val ?n) s s1" and
    alt: "(advances [IResolve (Name ?n) ?K] s [ICallback ?K Null (val ?n)] s1 \<and>
             queue s1 = queue s) \<or>
          (\<exists>d b e. \<not> truthy e \<and> advances [IResolve (Name ?n) ?K] s [] s1 \<and>
             queue s1 = queue s @ [Task d (KCache ?n b ?K) e (val ?n)])"
    by blast
  from leaf_step_map [OF ls m] have m1: "m < length (maps s1)"
    and same: "maps s1 ! m = maps s ! m" by simp_all
  from ls have frame: "log s1 = log s" "the_registry s1 = the_registry s"
    "the_interfaces s1 = the_interfaces s"
    by (simp_all add: leaf_step_def)
  have srv1: "\<forall>n\<in>set ns. serves s1 n (val n)"
    using srv leaf_step_serves [where val = val, OF ls] by blast
  from alt show ?thesis
  proof
    assume a: "advances [IResolve (Name ?n) ?K] s [ICallback ?K Null (val ?n)] s1 \<and>
               queue s1 = queue s"
    have iopn: "i \<in> ?opn" using i by simp
    from ok same have ok1: "map_ok k ns val ?opn (maps s1 ! m)" by simp
    from map_item_done [OF m1 ok1 iopn, of Null] obtain ms' where
      x: "exec (ICallback ?K Null (val ?n)) s1 =
            Next (if ?opn = {i} then [ICallback k Null (Arr (map val ns))] else [])
                 (s1\<lparr>maps := (maps s1)[m := ms']\<rparr>)"
      and ok': "?opn \<noteq> {i} \<longrightarrow> map_ok k ns val (?opn - {i}) ms'"
      by auto
    let ?s2 = "s1\<lparr>maps := (maps s1)[m := ms']\<rparr>"
    have fr2: "log ?s2 = log s" "the_registry ?s2 = the_registry s"
      "the_interfaces ?s2 = the_interfaces s"
      using frame by simp_all
    show ?thesis
    proof (cases "?opn = {i}")
      case True
      with open_after_start(3) [OF i low] have last: "js = []" "Suc i = length ns" by simp_all
      from x True have "exec (ICallback ?K Null (val ?n)) s1 =
            Next [ICallback k Null (Arr (map val ns))] ?s2" by simp
      from advances_trans [OF conjunct1 [OF a] advances_step [OF this, of "[]"]]
      have "advances [IResolve (Name ?n) ?K] s [ICallback k Null (Arr (map val ns))] ?s2"
        by simp
      moreover from q last a have "queue ?s2 = []" by simp
      ultimately show ?thesis using fr2 last by blast
    next
      case False
      from x False have "exec (ICallback ?K Null (val ?n)) s1 = Next [] ?s2" by simp
      from advances_trans [OF conjunct1 [OF a] advances_step [OF this, of "[]"]]
      have adv: "advances [IResolve (Name ?n) ?K] s [] ?s2" by simp
      from ok' False open_after_start(2) [OF i low]
      have "map_ok k ns val (set js \<union> {Suc i..<length ns}) ms'" by simp
      moreover from False open_after_start(3) [OF i low]
      have "js \<noteq> [] \<or> Suc i < length ns" using i by auto
      ultimately have "map_inv m k ns val (Suc i) js ?s2"
        using m1 dist low i q a srv1 by (auto simp: map_inv_def less_Suc_eq)
      with adv fr2 show ?thesis by blast
    qed
  next
    assume "\<exists>d b e. \<not> truthy e \<and> advances [IResolve (Name ?n) ?K] s [] s1 \<and>
             queue s1 = queue s @ [Task d (KCache ?n b ?K) e (val ?n)]"
    then obtain d b e where e: "\<not> truthy e"
      and adv: "advances [IResolve (Name ?n) ?K] s [] s1"
      and q1: "queue s1 = queue s @ [Task d (KCache ?n b ?K) e (val ?n)]"
      by blast
    have aw: "awaiting m ns val (Task d (KCache ?n b ?K) e (val ?n)) i"
      using i e by (auto simp: awaiting_def)
    have "list_all2 (awaiting m ns val) (queue s1) (js @ [i])"
      unfolding q1 using q aw by (simp add: list_all2_appendI)
    moreover from ok same open_after_start(1) [OF i low]
    have "map_ok k ns val (set (js @ [i]) \<union> {Suc i..<length ns}) (maps s1 ! m)" by simp
    moreover have "distinct (js @ [i])" using dist low by auto
    ultimately have "map_inv m k ns val (Suc i) (js @ [i]) s1"
      using m1 low i srv1 by (auto simp: map_inv_def less_Suc_eq)
    with adv frame show ?thesis by blast
  qed
qed

text \<open>The loop of the map, from item \<open>i\<close> on.\<close>

lemma dispatch_all:
  assumes "map_inv m k ns val i js s"
  shows "\<exists>s1. log s1 = log s \<and> the_registry s1 = the_registry s \<and>
           the_interfaces s1 = the_interfaces s \<and>
           ((\<exists>js'. advances [IMapLoop m (drop i ns) i] s [] s1 \<and>
                   map_inv m k ns val (length ns) js' s1) \<or>
            (advances [IMapLoop m (drop i ns) i] s
               [ICallback k Null (Arr (map val ns)), IMapLoop m [] (length ns)] s1 \<and>
             queue s1 = []))"
  using assms
proof (induction "length ns - i" arbitrary: i js s)
  case 0
  then have i: "i = length ns" by (simp add: map_inv_def)
  have "exec (IMapLoop m [] i) s = Next [] s" by simp
  from advances_step [OF this, of "[]"] have "advances [IMapLoop m (drop i ns) i] s [] s"
    using i by simp
  with 0 i show ?case by blast
next
  case (Suc d)
  then have i: "i < length ns" by simp
  then have dr: "drop i ns = ns ! i # drop (Suc i) ns" by (simp add: Cons_nth_drop_Suc)
  let ?rest = "IMapLoop m (drop (Suc i) ns) (Suc i)"
  have st: "exec (IMapLoop m (drop i ns) i) s =
              Next [IResolve (Name (ns ! i)) (KMapItem m i), ?rest] s"
    by (simp add: dr)
  from dispatch_item [OF Suc.prems i] obtain s1 where
    fr: "log s1 = log s" "the_registry s1 = the_registry s"
        "the_interfaces s1 = the_interfaces s" and
    alt: "(advances [IResolve (Name (ns ! i)) (KMapItem m i)] s [] s1 \<and>
             (map_inv m k ns val (Suc i) js s1 \<or> map_inv m k ns val (Suc i) (js @ [i]) s1)) \<or>
            (advances [IResolve (Name (ns ! i)) (KMapItem m i)] s
               [ICallback k Null (Arr (map val ns))] s1 \<and>
             Suc i = length ns \<and> queue s1 = [])"
    by blast
  from alt show ?case
  proof
    assume a: "advances [IResolve (Name (ns ! i)) (KMapItem m i)] s [] s1 \<and>
             (map_inv m k ns val (Suc i) js s1 \<or> map_inv m k ns val (Suc i) (js @ [i]) s1)"
    then obtain js1 where inv1: "map_inv m k ns val (Suc i) js1 s1" by blast
    from Suc.hyps(2) have d: "d = length ns - Suc i" by simp
    from Suc.hyps(1) [OF d inv1] obtain s2 where
      fr2: "log s2 = log s1" "the_registry s2 = the_registry s1"
           "the_interfaces s2 = the_interfaces s1" and
      alt2: "(\<exists>js'. advances [?rest] s1 [] s2 \<and> map_inv m k ns val (length ns) js' s2) \<or>
            (advances [?rest] s1
               [ICallback k Null (Arr (map val ns)), IMapLoop m [] (length ns)] s2 \<and>
             queue s2 = [])"
      by blast
    from advances_append [OF conjunct1 [OF a], of "[?rest]"]
    have "advances [IResolve (Name (ns ! i)) (KMapItem m i), ?rest] s [?rest] s1" by simp
    from advances_cons [OF st, of "[]"] this
    have pre: "advances [IMapLoop m (drop i ns) i] s [?rest] s1" by simp
    from alt2 show ?thesis
    proof
      assume "\<exists>js'. advances [?rest] s1 [] s2 \<and> map_inv m k ns val (length ns) js' s2"
      then obtain js' where "advances [?rest] s1 [] s2"
        and "map_inv m k ns val (length ns) js' s2" by blast
      with advances_trans [OF pre] fr fr2 show ?thesis by auto
    next
      assume "advances [?rest] s1
               [ICallback k Null (Arr (map val ns)), IMapLoop m [] (length ns)] s2 \<and>
             queue s2 = []"
      with advances_trans [OF pre] fr fr2 show ?thesis by auto
    qed
  next
    assume a: "advances [IResolve (Name (ns ! i)) (KMapItem m i)] s
               [ICallback k Null (Arr (map val ns))] s1 \<and>
             Suc i = length ns \<and> queue s1 = []"
    from advances_append [OF conjunct1 [OF a], of "[?rest]"] a
    have "advances [IResolve (Name (ns ! i)) (KMapItem m i), ?rest] s
            [ICallback k Null (Arr (map val ns)), IMapLoop m [] (length ns)] s1"
      by simp
    from advances_cons [OF st, of "[]"] this
    have "advances [IMapLoop m (drop i ns) i] s
            [ICallback k Null (Arr (map val ns)), IMapLoop m [] (length ns)] s1" by simp
    with a fr show ?thesis by blast
  qed
qed

lemma finishes_here: "queue s = [] \<Longrightarrow> finishes [] s s"
  unfolding finishes_def using advances_refl settles_idle by blast

lemma finishes_cons:
  assumes "exec i s = Next js t" and "finishes (js @ is) t s'"
  shows "finishes (i # is) s s'"
  using assms advances_cons unfolding finishes_def by blast

lemma finishes_run:
  assumes "finishes [IResolve name (KTop c)] s s'"
  shows "\<exists>N. \<forall>m. resolve_and_wait (N + m) name c s = Returned s'"
  using assms resolve_and_wait_settles unfolding finishes_def by blast

text \<open>
  The scheduler completes the items that were deferred, in whatever order they come,
  and the last completion calls the final callback with the results in place.
\<close>

lemma drain:
  assumes "map_inv m k ns val (length ns) js s"
  shows "\<exists>s2. log s2 = log s \<and> the_registry s2 = the_registry s \<and>
              the_interfaces s2 = the_interfaces s \<and> queue s2 = [] \<and>
              (\<forall>u s'. advances [ICallback k Null (Arr (map val ns))] s2 [] u \<longrightarrow>
                       settles u s' \<longrightarrow> settles s s')"
  using assms
proof (induction "sum_list (map task_delay (queue s))" arbitrary: s js rule: less_induct)
  case less
  let ?L = "length ns"
  let ?fin = "ICallback k Null (Arr (map val ns))"
  from less.prems have m: "m < length (maps s)"
    and ok: "map_ok k ns val (set js) (maps s ! m)"
    and dist: "distinct js" and low: "\<forall>j\<in>set js. j < ?L"
    and ne: "js \<noteq> []"
    and q: "list_all2 (awaiting m ns val) (queue s) js"
    and srv: "\<forall>n\<in>set ns. serves s n (val n)"
    by (simp_all add: map_inv_def)
  from ne obtain j js' where js: "js = j # js'" by (cases js) auto
  with q obtain t ts where qs: "queue s = t # ts" and aw: "awaiting m ns val t j"
    and q': "list_all2 (awaiting m ns val) ts js'"
    by (auto simp: list_all2_Cons2)
  from aw obtain d b e where jl: "j < ?L" and e: "\<not> truthy e"
    and t: "t = Task d (KCache (ns ! j) b (KMapItem m j)) e (val (ns ! j))"
    by (auto simp: awaiting_def)
  let ?n = "ns ! j" and ?K = "KMapItem m j"
  from js dist have jn: "j \<notin> set js'" and dist': "distinct js'" by simp_all
  show ?case
  proof (cases d)
    case (Suc d')
    let ?t' = "Task d' (KCache ?n b ?K) e (val ?n)"
    let ?s2 = "s\<lparr>queue := ts @ [?t']\<rparr>"
    have "awaiting m ns val ?t' j" using jl e by (auto simp: awaiting_def)
    with q' have "list_all2 (awaiting m ns val) (queue ?s2) (js' @ [j])"
      by (simp add: list_all2_appendI)
    moreover have "set (js' @ [j]) = set js" using js by auto
    ultimately have inv2: "map_inv m k ns val ?L (js' @ [j]) ?s2"
      using m ok dist' jn low js srv by (auto simp: map_inv_def)
    have "sum_list (map task_delay (queue ?s2)) < sum_list (map task_delay (queue s))"
      using qs t Suc by simp
    from less.hyps [OF this inv2] obtain s3 where
      r: "log s3 = log s" "the_registry s3 = the_registry s"
         "the_interfaces s3 = the_interfaces s" "queue s3 = []"
      and h: "\<And>u s'. advances [?fin] s3 [] u \<Longrightarrow> settles u s' \<Longrightarrow> settles ?s2 s'"
      by auto
    have "\<forall>u s'. advances [?fin] s3 [] u \<longrightarrow> settles u s' \<longrightarrow> settles s s'"
    proof (intro allI impI)
      fix u s' assume "advances [?fin] s3 [] u" "settles u s'"
      then have "settles ?s2 s'" by (rule h)
      with settles_delay [of s d' "KCache ?n b ?K" e "val ?n" ts s'] qs t Suc
      show "settles s s'" by simp
    qed
    with r show ?thesis by blast
  next
    case 0
    let ?s0 = "s\<lparr>queue := ts\<rparr>"
    let ?s1 = "if b then ?s0\<lparr>the_instances := (the_instances ?s0)(?n \<mapsto> val ?n)\<rparr> else ?s0"
    have x1: "exec (ICallback (KCache ?n b ?K) e (val ?n)) ?s0 =
                Next [ICallback ?K Null (val ?n)] ?s1"
      using cache_callback [OF e] by simp
    have ls: "leaf_step ?n (val ?n) ?s0 ?s1" by (rule cache_callback_leaf_step)
    have srv0: "\<forall>n\<in>set ns. serves ?s0 n (val n)" using srv by simp
    have srv1: "\<forall>n\<in>set ns. serves ?s1 n (val n)"
      using srv0 leaf_step_serves [where val = val, OF ls] by blast
    have m1: "m < length (maps ?s1)" and same: "maps ?s1 ! m = maps s ! m"
      using m by simp_all
    have jo: "j \<in> set js" using js by simp
    from ok same have ok1: "map_ok k ns val (set js) (maps ?s1 ! m)" by simp
    from map_item_done [OF m1 ok1 jo, of Null] obtain ms' where
      x2: "exec (ICallback ?K Null (val ?n)) ?s1 =
            Next (if set js = {j} then [?fin] else [])
                 (?s1\<lparr>maps := (maps ?s1)[m := ms']\<rparr>)"
      and ok': "set js \<noteq> {j} \<longrightarrow> map_ok k ns val (set js - {j}) ms'"
      by auto
    let ?s2 = "?s1\<lparr>maps := (maps ?s1)[m := ms']\<rparr>"
    have fr2: "log ?s2 = log s" "the_registry ?s2 = the_registry s"
      "the_interfaces ?s2 = the_interfaces s" "queue ?s2 = ts"
      by simp_all
    have last: "(set js = {j}) = (js' = [])"
    proof
      assume "set js = {j}"
      with js have "set js' \<subseteq> {j}" by auto
      with jn show "js' = []" by (cases js') auto
    next
      assume "js' = []" with js show "set js = {j}" by simp
    qed
    show ?thesis
    proof (cases "js' = []")
      case True
      with q' have ts: "ts = []" by simp
      from x2 True last have x2': "exec (ICallback ?K Null (val ?n)) ?s1 = Next [?fin] ?s2"
        by simp
      have pre: "advances [ICallback (KCache ?n b ?K) e (val ?n)] ?s0 [?fin] ?s2"
        using advances_cons [OF x1, of "[]"] advances_step [OF x2', of "[]"] by simp
      have "\<forall>u s'. advances [?fin] ?s2 [] u \<longrightarrow> settles u s' \<longrightarrow> settles s s'"
      proof (intro allI impI)
        fix u s' assume a: "advances [?fin] ?s2 [] u" and st: "settles u s'"
        from advances_trans [OF pre a] settles_task [of s "KCache ?n b ?K" e "val ?n" ts u s']
          qs t 0 st
        show "settles s s'" by simp
      qed
      moreover have "queue ?s2 = []" using ts by simp
      ultimately show ?thesis using fr2 by blast
    next
      case False
      with x2 last have x2': "exec (ICallback ?K Null (val ?n)) ?s1 = Next [] ?s2" by simp
      have adv: "advances [ICallback (KCache ?n b ?K) e (val ?n)] ?s0 [] ?s2"
        using advances_cons [OF x1, of "[]"] advances_step [OF x2', of "[]"] by simp
      have "set js - {j} = set js'" using js jn by auto
      with ok' False last have "map_ok k ns val (set js') ms'" by simp
      then have inv2: "map_inv m k ns val ?L js' ?s2"
        using m1 dist' low js False q' srv1 by (auto simp: map_inv_def)
      have "sum_list (map task_delay (queue ?s2)) < sum_list (map task_delay (queue s))"
        using qs t by simp
      from less.hyps [OF this inv2] fr2 obtain s3 where
        r: "log s3 = log s" "the_registry s3 = the_registry s"
           "the_interfaces s3 = the_interfaces s" "queue s3 = []"
        and h: "\<And>u s'. advances [?fin] s3 [] u \<Longrightarrow> settles u s' \<Longrightarrow> settles ?s2 s'"
        by auto
      have "\<forall>u s'. advances [?fin] s3 [] u \<longrightarrow> settles u s' \<longrightarrow> settles s s'"
      proof (intro allI impI)
        fix u s' assume "advances [?fin] s3 [] u" "settles u s'"
        then have "settles ?s2 s'" by (rule h)
        with settles_task [of s "KCache ?n b ?K" e "val ?n" ts ?s2 s'] qs t 0 adv
        show "settles s s'" by simp
      qed
      with r show ?thesis by blast
    qed
  qed
qed

text \<open>
  Resolving a list of served names from an idle scheduler, whatever the callback: the
  callback is called with the values of the names, in the order of the names, in a
  state with the same registry, interface index and log and an idle scheduler.
\<close>

lemma resolve_served_list:
  assumes srv: "\<forall>n\<in>set ns. serves s n (val n)" and idle: "queue s = []"
  shows "\<exists>js t s2. exec (IResolve (Names ns) k) s = Next js t \<and>
           log s2 = log s \<and> the_registry s2 = the_registry s \<and>
           the_interfaces s2 = the_interfaces s \<and> queue s2 = [] \<and>
           (\<forall>s'. finishes [ICallback k Null (Arr (map val ns))] s2 s' \<longrightarrow> finishes js t s')"
proof (cases "ns = []")
  case True
  let ?ms = "\<lparr>results = [], completed = 0, total = 0, fired = True, final = k\<rparr>"
  let ?t = "s\<lparr>maps := maps s @ [?ms]\<rparr>"
  have "exec (IResolve (Names ns) k) s = Next [ICallback k Null (Arr (map val ns))] ?t"
    using True by (simp add: resolve_def async_map_def fire_def)
  moreover have "log ?t = log s" "the_registry ?t = the_registry s"
    "the_interfaces ?t = the_interfaces s" "queue ?t = []"
    using idle by simp_all
  ultimately show ?thesis by blast
next
  case False
  let ?m = "length (maps s)"
  let ?fin = "ICallback k Null (Arr (map val ns))"
  let ?ms = "\<lparr>results = [], completed = 0, total = length ns, fired = False, final = k\<rparr>"
  let ?t = "s\<lparr>maps := maps s @ [?ms]\<rparr>"
  have 1: "exec (IResolve (Names ns) k) s = Next [IMapLoop ?m ns 0] ?t"
    using False by (simp add: resolve_def async_map_def Let_def)
  have "map_ok k ns val (set [] \<union> {0..<length ns}) ?ms"
    by (auto simp: map_ok_def)
  then have inv: "map_inv ?m k ns val 0 [] ?t"
    using srv idle False by (simp add: map_inv_def)
  from dispatch_all [OF inv] obtain s1 where
    fr: "log s1 = log s" "the_registry s1 = the_registry s"
        "the_interfaces s1 = the_interfaces s" and
    alt: "(\<exists>js'. advances [IMapLoop ?m ns 0] ?t [] s1 \<and>
                   map_inv ?m k ns val (length ns) js' s1) \<or>
            (advances [IMapLoop ?m ns 0] ?t [?fin, IMapLoop ?m [] (length ns)] s1 \<and>
             queue s1 = [])"
    by auto
  from alt show ?thesis
  proof
    assume "\<exists>js'. advances [IMapLoop ?m ns 0] ?t [] s1 \<and>
                   map_inv ?m k ns val (length ns) js' s1"
    then obtain js' where a: "advances [IMapLoop ?m ns 0] ?t [] s1"
      and inv1: "map_inv ?m k ns val (length ns) js' s1" by blast
    from drain [OF inv1] fr obtain s2 where
      r: "log s2 = log s" "the_registry s2 = the_registry s"
         "the_interfaces s2 = the_interfaces s" "queue s2 = []"
      and h: "\<And>u s'. advances [?fin] s2 [] u \<Longrightarrow> settles u s' \<Longrightarrow> settles s1 s'"
      by auto
    have "\<forall>s'. finishes [?fin] s2 s' \<longrightarrow> finishes [IMapLoop ?m ns 0] ?t s'"
      using h a unfolding finishes_def by blast
    with 1 r show ?thesis by blast
  next
    assume a: "advances [IMapLoop ?m ns 0] ?t [?fin, IMapLoop ?m [] (length ns)] s1 \<and>
               queue s1 = []"
    have "\<forall>s'. finishes [?fin] s1 s' \<longrightarrow> finishes [IMapLoop ?m ns 0] ?t s'"
    proof (intro allI impI)
      fix s' assume "finishes [?fin] s1 s'"
      then obtain u where u: "advances [?fin] s1 [] u" and st: "settles u s'"
        unfolding finishes_def by blast
      have "exec (IMapLoop ?m [] (length ns)) u = Next [] u" by simp
      from advances_step [OF this, of "[]"]
      have "advances [IMapLoop ?m [] (length ns)] u [] u" by simp
      with advances_append [OF u, of "[IMapLoop ?m [] (length ns)]"]
      have "advances [?fin, IMapLoop ?m [] (length ns)] s1 [] u"
        using advances_trans by fastforce
      from advances_trans [OF conjunct1 [OF a] this] st
      show "finishes [IMapLoop ?m ns 0] ?t s'" unfolding finishes_def by blast
    qed
    with 1 fr a show ?thesis by blast
  qed
qed

text \<open>With the caller's callback, the list of values is what the caller receives.\<close>

lemma served_list_delivered:
  assumes srv: "\<forall>n\<in>set ns. serves s n (val n)" and idle: "queue s = []"
      and first: "exec (IResolve name (KTop c)) s = exec (IResolve (Names ns) (KTop c)) s"
  shows "\<exists>N s'. (\<forall>m. resolve_and_wait (N + m) name c s = Returned s') \<and>
           log s' = log s @ [(c, Null, Arr (map val ns))]"
proof -
  let ?fin = "ICallback (KTop c) Null (Arr (map val ns))"
  from resolve_served_list [OF srv idle, of "KTop c"] obtain js t s2 where
    1: "exec (IResolve (Names ns) (KTop c)) s = Next js t"
    and l: "log s2 = log s" and q: "queue s2 = []"
    and h: "\<And>s'. finishes [?fin] s2 s' \<Longrightarrow> finishes js t s'"
    by blast
  let ?u = "s2\<lparr>log := log s2 @ [(c, Null, Arr (map val ns))]\<rparr>"
  have "exec ?fin s2 = Next [] ?u" by simp
  moreover have "finishes [] ?u ?u" using q by (intro finishes_here) simp
  ultimately have "finishes [?fin] s2 ?u" using finishes_cons [of ?fin s2 "[]" ?u "[]" ?u] by simp
  then have "finishes js t ?u" by (rule h)
  with first 1 have "finishes [IResolve name (KTop c)] s ?u"
    using finishes_cons [of "IResolve name (KTop c)" s js t "[]" ?u] by simp
  from finishes_run [OF this] obtain N where
    "\<forall>m. resolve_and_wait (N + m) name c s = Returned ?u" by blast
  moreover have "log ?u = log s @ [(c, Null, Arr (map val ns))]" using l by simp
  ultimately show ?thesis by blast
qed

text \<open>Two ways of establishing that a name is served.\<close>

lemma served_later_factory:
  assumes "the_registry s n = Some \<lparr>factory = Direct (later_factory f d v), config = cfg\<rparr>"
      and "the_instances s n = None"
  shows "serves s n v"
  using assms by (auto simp: serves_def later_factory_def)

lemma served_instance:
  assumes "the_registry s n = Some \<lparr>factory = Instance v, config = cfg\<rparr>"
      and "the_instances s n = None"
  shows "serves s n v"
  using assms by (simp add: serves_def)

section \<open>The interface index\<close>

lemma foldl_iface_lookup:
  "the_interfaces (foldl (add_implementation n) s is) i =
   (if count_list is i = 0 then the_interfaces s i
    else Some ((case the_interfaces s i of Some xs \<Rightarrow> xs | None \<Rightarrow> []) @
               replicate (count_list is i) n))"
proof (induction "is" arbitrary: s)
  case Nil
  then show ?case by simp
next
  case (Cons x xs)
  show ?case
    by (simp add: Cons.IH) (simp add: add_implementation_def split: option.split)
qed

lemma store_interfaces:
  assumes "interfaces cfg = Some is"
  shows "the_interfaces (store n fac cfg s) i =
           (if count_list is i = 0 then the_interfaces s i
            else Some ((case the_interfaces s i of Some xs \<Rightarrow> xs | None \<Rightarrow> []) @
                       replicate (count_list is i) n))"
  using assms by (simp add: store_def addInterfaceMapping_def foldl_iface_lookup)

section \<open>Declared names that are served\<close>


section \<open>Singletons with a truthy value\<close>

text \<open>A single task in the queue, whatever its delay, is run by the scheduler.\<close>

lemma settles_single:
  assumes "queue s = [Task d k e v]"
      and "advances [ICallback k e v] (s\<lparr>queue := []\<rparr>) [] u" and "queue u = []"
  shows "settles s u"
  using assms
proof (induction d arbitrary: s)
  case 0
  from settles_task [of s k e v "[]" u u] 0 settles_idle [of u] show ?case by simp
next
  case (Suc d)
  let ?t = "s\<lparr>queue := [] @ [Task d k e v]\<rparr>"
  have "settles ?t u"
    using Suc.IH [of ?t] Suc.prems by simp
  with settles_delay [of s d k e v "[]" u] Suc.prems(1) show ?case by simp
qed

text \<open>
  The first resolution of a served singleton with a truthy value: the caller receives
  the value, the cache holds it afterwards, and at most one user function was called.
\<close>

lemma singleton_first_resolution:
  assumes srv: "serves s n v" and r: "the_registry s n = Some r"
      and sg: "config_singleton (config r)" and idle: "queue s = []"
  shows "\<exists>u. finishes [IResolve (Name n) (KTop c)] s u \<and>
              log u = log s @ [(c, Null, v)] \<and> the_instances u n = Some v \<and>
              the_registry u = the_registry s \<and> queue u = [] \<and>
              length (calls u) \<le> Suc (length (calls s))"
proof -
  from srv r have p: "produces (factory r) v"
    and c: "\<forall>w. the_instances s n = Some w \<longrightarrow> truthy w \<longrightarrow> w = v"
    using sg unfolding serves_def by auto
  let ?K = "KCache n True (KTop c)"
  have fin: "\<And>t. queue t = [] \<Longrightarrow>
      finishes [ICallback ?K Null v] t
        (t\<lparr>the_instances := (the_instances t)(n \<mapsto> v), log := log t @ [(c, Null, v)]\<rparr>)"
  proof -
    fix t :: state assume q: "queue t = []"
    let ?t1 = "t\<lparr>the_instances := (the_instances t)(n \<mapsto> v)\<rparr>"
    let ?t2 = "?t1\<lparr>log := log t @ [(c, Null, v)]\<rparr>"
    have 1: "exec (ICallback ?K Null v) t = Next [ICallback (KTop c) Null v] ?t1" by simp
    have 2: "exec (ICallback (KTop c) Null v) ?t1 = Next [] ?t2" by simp
    have "finishes [] ?t2 ?t2" using q by (intro finishes_here) simp
    with 2 have "finishes [ICallback (KTop c) Null v] ?t1 ?t2"
      using finishes_cons [of "ICallback (KTop c) Null v" ?t1 "[]" ?t2 "[]" ?t2] by simp
    with 1 show "finishes [ICallback ?K Null v] t ?t2"
      using finishes_cons [of "ICallback ?K Null v" t "[ICallback (KTop c) Null v]" ?t1 "[]" ?t2]
      by simp
  qed
  show ?thesis
  proof (cases "\<exists>w. the_instances s n = Some w \<and> truthy w")
    case True
    then obtain w where w: "the_instances s n = Some w" "truthy w" by blast
    with c have wv: "w = v" by simp
    let ?u = "s\<lparr>log := log s @ [(c, Null, v)]\<rparr>"
    from resolve_cached [OF r sg w] wv
    have 1: "exec (IResolve (Name n) (KTop c)) s = Next [ICallback (KTop c) Null v] s" by simp
    have 2: "exec (ICallback (KTop c) Null v) s = Next [] ?u" by simp
    have "finishes [] ?u ?u" using idle by (intro finishes_here) simp
    with 2 have "finishes [ICallback (KTop c) Null v] s ?u"
      using finishes_cons [of "ICallback (KTop c) Null v" s "[]" ?u "[]" ?u] by simp
    with 1 have "finishes [IResolve (Name n) (KTop c)] s ?u"
      using finishes_cons [of "IResolve (Name n) (KTop c)" s "[ICallback (KTop c) Null v]" s "[]" ?u]
      by simp
    with w wv idle show ?thesis by auto
  next
    case False
    with resolve_creates [where K = "KTop c", OF r] r sg
    have e: "exec (IResolve (Name n) (KTop c)) s = invoke (factory r) ?K s" by simp
    show ?thesis
    proof (cases "factory r")
      case (Instance w)
      with p e have 1: "exec (IResolve (Name n) (KTop c)) s = Next [ICallback ?K Null v] s"
        by simp
      let ?u = "s\<lparr>the_instances := (the_instances s)(n \<mapsto> v), log := log s @ [(c, Null, v)]\<rparr>"
      from fin [OF idle] 1 have "finishes [IResolve (Name n) (KTop c)] s ?u"
        using finishes_cons [of "IResolve (Name n) (KTop c)" s "[ICallback ?K Null v]" s "[]" ?u]
        by simp
      with idle show ?thesis by auto
    next
      case (Direct f)
      let ?t = "record_call (fid f) [] s"
      let ?u = "?t\<lparr>the_instances := (the_instances ?t)(n \<mapsto> v), log := log ?t @ [(c, Null, v)]\<rparr>"
      have tq: "queue ?t = []" using idle by (simp add: record_call_def)
      have props: "log ?u = log s @ [(c, Null, v)]" "the_instances ?u n = Some v"
        "the_registry ?u = the_registry s" "queue ?u = []"
        "length (calls ?u) \<le> Suc (length (calls s))"
        using idle by (simp_all add: record_call_def)
      from p Direct have "\<exists>d x. \<not> truthy x \<and>
                (behave f [] (count_calls (fid f) s) = Calls x v \<or>
                 behave f [] (count_calls (fid f) s) = Later d x v)"
        by simp
      then obtain d x where x: "\<not> truthy x"
        and bh: "behave f [] (count_calls (fid f) s) = Calls x v \<or>
                 behave f [] (count_calls (fid f) s) = Later d x v"
        by blast
      have step: "exec (ICallback ?K x v) ?t = exec (ICallback ?K Null v) ?t"
        using x by simp
      from fin [OF tq] obtain w where adv0: "advances [ICallback ?K Null v] ?t [] w"
        and st0: "settles w ?u" unfolding finishes_def by blast
      have advx: "advances [ICallback ?K x v] ?t [] ?u"
      proof -
        let ?t1 = "?t\<lparr>the_instances := (the_instances ?t)(n \<mapsto> v)\<rparr>"
        have 1: "exec (ICallback ?K x v) ?t = Next [ICallback (KTop c) Null v] ?t1"
          using x by simp
        have 2: "exec (ICallback (KTop c) Null v) ?t1 = Next [] ?u" by simp
        show ?thesis
          using advances_cons [OF 1, of "[]"] advances_step [OF 2, of "[]"] by simp
      qed
      from bh show ?thesis
      proof
        assume "behave f [] (count_calls (fid f) s) = Calls x v"
        with e Direct have 1: "exec (IResolve (Name n) (KTop c)) s = Next [ICallback ?K x v] ?t"
          by (simp add: apply_async_def)
        from advances_cons [OF 1, of "[]"] advx
        have "advances [IResolve (Name n) (KTop c)] s [] ?u" by simp
        moreover have "settles ?u ?u" using props(4) by (rule settles_idle)
        ultimately have "finishes [IResolve (Name n) (KTop c)] s ?u"
          unfolding finishes_def by blast
        with props show ?thesis by blast
      next
        assume "behave f [] (count_calls (fid f) s) = Later d x v"
        with e Direct idle have 1: "exec (IResolve (Name n) (KTop c)) s =
            Next [] (?t\<lparr>queue := [Task d ?K x v]\<rparr>)"
          by (simp add: apply_async_def)
        let ?q = "?t\<lparr>queue := [Task d ?K x v]\<rparr>"
        have "?q\<lparr>queue := []\<rparr> = ?t" using tq by simp
        with advx have "advances [ICallback ?K x v] (?q\<lparr>queue := []\<rparr>) [] ?u" by simp
        from settles_single [OF _ this props(4)] have "settles ?q ?u" by simp
        moreover from advances_step [OF 1, of "[]"]
        have "advances [IResolve (Name n) (KTop c)] s [] ?q" by simp
        ultimately have "finishes [IResolve (Name n) (KTop c)] s ?u"
          unfolding finishes_def by blast
        with props show ?thesis by blast
      qed
    next
      case (ViaCallSync f)
      with p have deps: "getDependenciesNames f False = []"
        and bh: "\<And>args k. behave f args k = Returns v" by simp_all
      let ?KS = "KCallSync f ?K"
      let ?ms = "\<lparr>results = [], completed = 0, total = 0, fired = True, final = ?KS\<rparr>"
      let ?t = "s\<lparr>maps := maps s @ [?ms]\<rparr>"
      let ?t' = "record_call (fid f) [] ?t"
      let ?u = "?t'\<lparr>the_instances := (the_instances ?t')(n \<mapsto> v), log := log ?t' @ [(c, Null, v)]\<rparr>"
      from e ViaCallSync deps
      have 1: "exec (IResolve (Name n) (KTop c)) s = Next [IResolve (Names []) ?KS] s"
        by (simp add: callSync_def)
      have 2: "exec (IResolve (Names []) ?KS) s = Next [ICallback ?KS Null (Arr [])] ?t"
        by (simp add: resolve_def async_map_def fire_def)
      have 3: "exec (ICallback ?KS Null (Arr [])) ?t = Next [ICallback ?K Null v] ?t'"
        using bh by (simp add: apply_sync_def)
      have "queue ?t' = []" using idle by (simp add: record_call_def)
      from fin [OF this] have "finishes [ICallback ?K Null v] ?t' ?u" .
      with 3 have "finishes [ICallback ?KS Null (Arr [])] ?t ?u"
        using finishes_cons [of "ICallback ?KS Null (Arr [])" ?t "[ICallback ?K Null v]" ?t' "[]" ?u]
        by simp
      with 2 have "finishes [IResolve (Names []) ?KS] s ?u"
        using finishes_cons [of "IResolve (Names []) ?KS" s "[ICallback ?KS Null (Arr [])]" ?t "[]" ?u]
        by simp
      with 1 have "finishes [IResolve (Name n) (KTop c)] s ?u"
        using finishes_cons [of "IResolve (Name n) (KTop c)" s "[IResolve (Names []) ?KS]" s "[]" ?u]
        by simp
      moreover have "log ?u = log s @ [(c, Null, v)]" "the_instances ?u n = Some v"
        "the_registry ?u = the_registry s" "queue ?u = []"
        "length (calls ?u) \<le> Suc (length (calls s))"
        using idle by (simp_all add: record_call_def)
      ultimately show ?thesis by blast
    next
      case (ViaCall f)
      with p show ?thesis by simp
    next
      case (ViaCallCtor f)
      with p show ?thesis by simp
    qed
  qed
qed

text \<open>
  For a truthy value the singleton behaves as promised: two resolutions in sequence
  give the same value, and at most one user function is called over the two.
\<close>

lemma truthy_singleton_resolved_twice:
  assumes srv: "serves s n v" and r: "the_registry s n = Some r"
      and sg: "config_singleton (config r)" and idle: "queue s = []" and tv: "truthy v"
  shows "\<exists>N s1 s2. (\<forall>m. resolve_and_wait (N + m) (Name n) c1 s = Returned s1) \<and>
           (\<forall>m. resolve_and_wait (N + m) (Name n) c2 s1 = Returned s2) \<and>
           log s2 = log s @ [(c1, Null, v), (c2, Null, v)] \<and>
           length (calls s2) \<le> Suc (length (calls s))"
proof -
  from singleton_first_resolution [OF srv r sg idle, of c1] obtain s1 where
    f1: "finishes [IResolve (Name n) (KTop c1)] s s1"
    and l1: "log s1 = log s @ [(c1, Null, v)]" and i1: "the_instances s1 n = Some v"
    and r1: "the_registry s1 = the_registry s" and q1: "queue s1 = []"
    and c1: "length (calls s1) \<le> Suc (length (calls s))"
    by blast
  let ?s2 = "s1\<lparr>log := log s1 @ [(c2, Null, v)]\<rparr>"
  from r r1 have r': "the_registry s1 n = Some r" by simp
  from resolve_cached [OF r' sg i1 tv]
  have 1: "exec (IResolve (Name n) (KTop c2)) s1 = Next [ICallback (KTop c2) Null v] s1" .
  have 2: "exec (ICallback (KTop c2) Null v) s1 = Next [] ?s2" by simp
  have "finishes [] ?s2 ?s2" using q1 by (intro finishes_here) simp
  with 2 have "finishes [ICallback (KTop c2) Null v] s1 ?s2"
    using finishes_cons [of "ICallback (KTop c2) Null v" s1 "[]" ?s2 "[]" ?s2] by simp
  with 1 have f2: "finishes [IResolve (Name n) (KTop c2)] s1 ?s2"
    using finishes_cons [of "IResolve (Name n) (KTop c2)" s1 "[ICallback (KTop c2) Null v]" s1 "[]" ?s2]
    by simp
  from finishes_run [OF f1] obtain N1 where
    n1: "\<forall>m. resolve_and_wait (N1 + m) (Name n) c1 s = Returned s1" by blast
  from finishes_run [OF f2] obtain N2 where
    n2: "\<forall>m. resolve_and_wait (N2 + m) (Name n) c2 s1 = Returned ?s2" by blast
  have a: "\<forall>m. resolve_and_wait ((N1 + N2) + m) (Name n) c1 s = Returned s1"
    using n1 by (simp add: add.assoc)
  have b: "\<forall>m. resolve_and_wait ((N1 + N2) + m) (Name n) c2 s1 = Returned ?s2"
  proof
    fix m
    have "N1 + N2 + m = N2 + (N1 + m)" by simp
    then show "resolve_and_wait ((N1 + N2) + m) (Name n) c2 s1 = Returned ?s2"
      using n2 by metis
  qed
  have "log ?s2 = log s @ [(c1, Null, v), (c2, Null, v)]" using l1 by simp
  moreover have "length (calls ?s2) \<le> Suc (length (calls s))" using c1 by simp
  ultimately show ?thesis using a b by blast
qed

section \<open>Invariants of a run\<close>

text \<open>
  A property of the calls executed so far, of the calls pending in the turn and of
  the state that every step and every move of the scheduler preserves holds where the
  run stops, whatever the fuel.
\<close>

lemma resolve_and_wait_all: "resolve_and_wait n t c s = run_all n n [IResolve t (KTop c)] s"
  by (simp add: resolve_and_wait_def run_all_def call_resolve_def)

lemma trace_resolve_all: "trace_resolve n t c s = trace_all n n [IResolve t (KTop c)] s"
  by (simp add: trace_resolve_def trace_all_def call_resolve_def)

lemma stop_resolve_all: "stop_resolve n t c s = stop_all n n [IResolve t (KTop c)] s"
  by (simp add: stop_resolve_def stop_all_def call_resolve_def)

lemma run_all_step:
  assumes "exec i s = Next js s1"
  shows "run_all (Suc n1) n2 (i # is) s = run_all n1 n2 (js @ is) s1"
    and "trace_all (Suc n1) n2 (i # is) s = i # trace_all n1 n2 (js @ is) s1"
    and "stop_all (Suc n1) n2 (i # is) s = stop_all n1 n2 (js @ is) s1"
  using assms by (simp_all add: run_all_def trace_all_def stop_all_def split: outcome.split)

text \<open>A run that has ended has stopped with nothing pending, in the state it ended in.\<close>

lemma stop_sync_ended: "ended (run_sync n is s) s' \<Longrightarrow> stop_sync n is s = ([], s')"
proof (induction n "is" s rule: run_sync.induct)
  case (3 n i "is" s)
  then show ?case by (cases "exec i s") (auto simp: ended_def)
qed (simp_all add: ended_def)

lemma stop_loop_ended: "ended (run_loop n s) s' \<Longrightarrow> stop_loop n s = ([], s')"
proof (induction n arbitrary: s)
  case 0
  then show ?case by (simp add: ended_def split: if_splits)
next
  case (Suc n)
  show ?case
  proof (cases "queue s")
    case Nil
    with Suc.prems show ?thesis by (simp add: ended_def)
  next
    case (Cons t ts)
    obtain d k e v where t: "t = Task d k e v" by (cases t)
    show ?thesis
    proof (cases "run_task n t (s\<lparr>queue := ts\<rparr>)")
      case (Returned u)
      with Suc.prems Cons have "ended (run_loop n u) s'" by simp
      from Suc.IH [OF this] Cons Returned show ?thesis by simp
    next
      case (Threw x u)
      with Suc.prems Cons have u: "u = s'" by (simp add: ended_def)
      from Threw t obtain d0: "d = 0"
        and r: "run_sync n [ICallback k e v] (s\<lparr>queue := ts\<rparr>) = Threw x u"
        by (cases d) auto
      then have "ended (run_sync n [ICallback k e v] (s\<lparr>queue := ts\<rparr>)) u"
        by (simp add: ended_def)
      from stop_sync_ended [OF this] Cons Threw t d0 u show ?thesis by simp
    next
      case OutOfFuel
      with Suc.prems Cons show ?thesis by (simp add: ended_def)
    qed
  qed
qed

lemma stop_all_ended: "ended (run_all n1 n2 is s) s' \<Longrightarrow> stop_all n1 n2 is s = ([], s')"
proof (cases "run_sync n1 is s")
  case (Returned u)
  assume "ended (run_all n1 n2 is s) s'"
  with Returned have "ended (run_loop n2 u) s'" by (simp add: run_all_def)
  from stop_loop_ended [OF this] Returned show ?thesis by (simp add: stop_all_def)
next
  case (Threw x u)
  assume "ended (run_all n1 n2 is s) s'"
  with Threw have "ended (run_sync n1 is s) s'" by (simp add: run_all_def ended_def)
  from stop_sync_ended [OF this] Threw show ?thesis by (simp add: stop_all_def)
next
  case OutOfFuel
  assume "ended (run_all n1 n2 is s) s'"
  with OutOfFuel show ?thesis by (simp add: run_all_def ended_def)
qed

lemma stop_resolve_ended:
  assumes "resolve_and_wait n t c s = Returned s' \<or> resolve_and_wait n t c s = Threw x s'"
  shows "still_pending n t c s = []" and "state_reached n t c s = s'"
proof -
  from assms have "ended (run_all n n [IResolve t (KTop c)] s) s'"
    by (auto simp: ended_def resolve_and_wait_all)
  from stop_all_ended [OF this]
  show "still_pending n t c s = []" and "state_reached n t c s = s'"
    by (simp_all add: still_pending_def state_reached_def stop_resolve_all)
qed

text \<open>Invariants hold where a run stops.\<close>

lemma stop_sync_inv:
  assumes step: "\<And>T i is s js s'. I T (i # is) s \<Longrightarrow> exec i s = Next js s' \<Longrightarrow> I (T @ [i]) (js @ is) s'"
      and thr: "\<And>T i is s e s'. I T (i # is) s \<Longrightarrow> exec i s = Throw e s' \<Longrightarrow> I (T @ [i]) [] s'"
  shows "I T is s \<Longrightarrow>
         I (T @ trace_sync n is s) (fst (stop_sync n is s)) (snd (stop_sync n is s))"
proof (induction n "is" s arbitrary: T rule: run_sync.induct)
  case (1 n s)
  then show ?case by simp
next
  case (2 i "is" s)
  then show ?case by simp
next
  case (3 n i "is" s)
  show ?case
  proof (cases "exec i s")
    case (Next js s1)
    from step [OF "3.prems" Next] have "I (T @ [i]) (js @ is) s1" .
    from "3.IH" [OF Next this] Next show ?thesis by simp
  next
    case (Throw e s1)
    from thr [OF "3.prems" Throw] Throw show ?thesis by simp
  qed
qed

lemma stop_loop_inv:
  assumes step: "\<And>T i is s js s'. I T (i # is) s \<Longrightarrow> exec i s = Next js s' \<Longrightarrow> I (T @ [i]) (js @ is) s'"
      and thr: "\<And>T i is s e s'. I T (i # is) s \<Longrightarrow> exec i s = Throw e s' \<Longrightarrow> I (T @ [i]) [] s'"
      and pop: "\<And>T s k e v ts. I T [] s \<Longrightarrow> queue s = Task 0 k e v # ts \<Longrightarrow>
                  I T [ICallback k e v] (s\<lparr>queue := ts\<rparr>)"
      and delay: "\<And>T s d k e v ts. I T [] s \<Longrightarrow> queue s = Task (Suc d) k e v # ts \<Longrightarrow>
                  I T [] (s\<lparr>queue := ts @ [Task d k e v]\<rparr>)"
  shows "I T [] s \<Longrightarrow>
         I (T @ trace_loop n s) (fst (stop_loop n s)) (snd (stop_loop n s))"
proof (induction n arbitrary: T s)
  case 0
  then show ?case by simp
next
  case (Suc n)
  show ?case
  proof (cases "queue s")
    case Nil
    with Suc.prems show ?thesis by simp
  next
    case (Cons t ts)
    obtain d k e v where t: "t = Task d k e v" by (cases t)
    show ?thesis
    proof (cases d)
      case 0
      let ?s = "s\<lparr>queue := ts\<rparr>"
      from pop [OF Suc.prems] Cons t 0
      have i: "I T [ICallback k e v] ?s" by simp
      from step thr i
      have st: "I (T @ trace_sync n [ICallback k e v] ?s)
                  (fst (stop_sync n [ICallback k e v] ?s)) (snd (stop_sync n [ICallback k e v] ?s))"
        by (rule stop_sync_inv [where I = I])
      show ?thesis
      proof (cases "run_sync n [ICallback k e v] ?s")
        case (Returned u)
        then have "ended (run_sync n [ICallback k e v] ?s) u" by (simp add: ended_def)
        from stop_sync_ended [OF this] st
        have "I (T @ trace_sync n [ICallback k e v] ?s) [] u" by simp
        from Suc.IH [OF this] Cons t 0 Returned show ?thesis by simp
      next
        case (Threw x u)
        with st Cons t 0 show ?thesis by simp
      next
        case OutOfFuel
        with st Cons t 0 show ?thesis by simp
      qed
    next
      case (Suc d')
      from delay [OF Suc.prems] Cons t Suc
      have "I T [] (s\<lparr>queue := ts @ [Task d' k e v]\<rparr>)" by simp
      from Suc.IH [OF this] Cons t Suc show ?thesis by simp
    qed
  qed
qed

lemma stop_all_inv:
  assumes step: "\<And>T i is s js s'. I T (i # is) s \<Longrightarrow> exec i s = Next js s' \<Longrightarrow> I (T @ [i]) (js @ is) s'"
      and thr: "\<And>T i is s e s'. I T (i # is) s \<Longrightarrow> exec i s = Throw e s' \<Longrightarrow> I (T @ [i]) [] s'"
      and pop: "\<And>T s k e v ts. I T [] s \<Longrightarrow> queue s = Task 0 k e v # ts \<Longrightarrow>
                  I T [ICallback k e v] (s\<lparr>queue := ts\<rparr>)"
      and delay: "\<And>T s d k e v ts. I T [] s \<Longrightarrow> queue s = Task (Suc d) k e v # ts \<Longrightarrow>
                  I T [] (s\<lparr>queue := ts @ [Task d k e v]\<rparr>)"
      and init: "I T is s"
  shows "I (T @ trace_all n1 n2 is s) (fst (stop_all n1 n2 is s)) (snd (stop_all n1 n2 is s))"
proof -
  from step thr init
  have st: "I (T @ trace_sync n1 is s) (fst (stop_sync n1 is s)) (snd (stop_sync n1 is s))"
    by (rule stop_sync_inv [where I = I])
  show ?thesis
  proof (cases "run_sync n1 is s")
    case (Returned u)
    then have "ended (run_sync n1 is s) u" by (simp add: ended_def)
    from stop_sync_ended [OF this] st have "I (T @ trace_sync n1 is s) [] u" by simp
    then have "I ((T @ trace_sync n1 is s) @ trace_loop n2 u)
                 (fst (stop_loop n2 u)) (snd (stop_loop n2 u))"
      using step thr pop delay by - (rule stop_loop_inv [where I = I], assumption+)
    with Returned show ?thesis by (simp add: trace_all_def stop_all_def)
  next
    case (Threw x u)
    with st show ?thesis by (simp add: trace_all_def stop_all_def)
  next
    case OutOfFuel
    with st show ?thesis by (simp add: trace_all_def stop_all_def)
  qed
qed

subsection \<open>The log\<close>

lemma fire_log: "log (step_state (fire m ms err s)) = log s"
  by (simp add: fire_def)

lemma async_map_log: "log (step_state (async_map ns k s)) = log s"
  by (simp add: async_map_def Let_def fire_log)

lemma map_item_log: "log (step_state (map_item m i err v s)) = log s"
  by (simp add: map_item_def Let_def fire_log)

lemma apply_async_log: "log (step_state (apply_async f args k s)) = log s"
  by (simp add: apply_async_def record_call_def split: async_effect.split)

lemma invoke_log: "log (step_state (invoke fac k s)) = log s"
  by (cases fac) (simp_all add: apply_async_log call_def callSync_def callCtor_def)

lemma resolve_log: "log (step_state (resolve name k s)) = log s"
  by (simp add: resolve_def Let_def async_map_log invoke_log setImmediate_def
      split: target.split option.split)

lemma exec_log: "log (step_state (exec i s)) = log s @ top_call i"
proof (cases i)
  case (IResolve name k)
  then show ?thesis by (simp add: resolve_log)
next
  case (ICallback k err v)
  then show ?thesis
    by (cases k)
       (simp_all add: map_item_log apply_async_log apply_sync_def construct_def record_call_def
          split: sync_effect.split)
next
  case (IMapLoop m ns j)
  then show ?thesis by (cases ns) simp_all
qed

lemma tops_snoc [simp]: "tops (T @ [i]) = tops T @ top_call i"
  by (simp add: tops_def)

lemma logged_run:
  "log (snd (stop_all n1 n2 is s)) = log s @ tops (trace_all n1 n2 is s)"
proof -
  have "logged (log s) ([] @ trace_all n1 n2 is s) (fst (stop_all n1 n2 is s))
          (snd (stop_all n1 n2 is s))"
  proof (rule stop_all_inv [where I = "logged (log s)"])
    fix T i js t ks t' assume "logged (log s) T (i # js) t" "exec i t = Next ks t'"
    with exec_log [of i t] show "logged (log s) (T @ [i]) (ks @ js) t'"
      by (simp add: logged_def)
  next
    fix T i js t e t' assume "logged (log s) T (i # js) t" "exec i t = Throw e t'"
    with exec_log [of i t] show "logged (log s) (T @ [i]) [] t'"
      by (simp add: logged_def)
  next
    show "logged (log s) [] is s" by (simp add: logged_def tops_def)
  qed (simp_all add: logged_def)
  then show ?thesis by (simp add: logged_def)
qed

subsection \<open>The calls of user functions\<close>










subsection \<open>Callbacks that hand on what they receive\<close>

lemma exec_hands_on: "hands_on i = Some j \<Longrightarrow> \<exists>s'. exec i s = Next [j] s'"
proof (cases i)
  case (ICallback k err v)
  assume "hands_on i = Some j"
  with ICallback show ?thesis by (cases k) (auto split: if_splits)
qed simp_all

lemma handed_run:
  "\<forall>i\<in>set (trace_all n1 n2 is s). \<forall>j. hands_on i = Some j \<longrightarrow>
     j \<in> set (trace_all n1 n2 is s) \<or> (\<exists>rest. fst (stop_all n1 n2 is s) = j # rest)"
proof -
  have "handed ([] @ trace_all n1 n2 is s) (fst (stop_all n1 n2 is s)) (snd (stop_all n1 n2 is s))"
  proof (rule stop_all_inv [where I = handed])
    fix T i js t ks t' assume h: "handed T (i # js) t" and e: "exec i t = Next ks t'"
    show "handed (T @ [i]) (ks @ js) t'"
      unfolding handed_def
    proof (intro ballI allI impI)
      fix x j assume x: "x \<in> set (T @ [i])" and j: "hands_on x = Some j"
      show "j \<in> set (T @ [i]) \<or> (\<exists>rest. ks @ js = j # rest)"
      proof (cases "x = i")
        case True
        with exec_hands_on [OF j, of t] e show ?thesis by auto
      next
        case False
        with x have "x \<in> set T" by simp
        with h j have "j \<in> set T \<or> (\<exists>rest. i # js = j # rest)" unfolding handed_def by blast
        then show ?thesis by auto
      qed
    qed
  next
    fix T i js t e t' assume h: "handed T (i # js) t" and e: "exec i t = Throw e t'"
    show "handed (T @ [i]) [] t'"
      unfolding handed_def
    proof (intro ballI allI impI)
      fix x j assume x: "x \<in> set (T @ [i])" and j: "hands_on x = Some j"
      show "j \<in> set (T @ [i]) \<or> (\<exists>rest. [] = j # rest)"
      proof (cases "x = i")
        case True
        with exec_hands_on [OF j, of t] e show ?thesis by auto
      next
        case False
        with x have "x \<in> set T" by simp
        with h j have "j \<in> set T \<or> (\<exists>rest. i # js = j # rest)" unfolding handed_def by blast
        then show ?thesis by auto
      qed
    qed
  next
    fix T t k e v ts assume "handed T [] t"
    then show "handed T [ICallback k e v] (t\<lparr>queue := ts\<rparr>)" unfolding handed_def by blast
  next
    fix T t d k e v ts assume "handed T [] t"
    then show "handed T [] (t\<lparr>queue := ts @ [Task d k e v]\<rparr>)" unfolding handed_def by blast
  next
    show "handed [] is s" by (simp add: handed_def)
  qed
  then show ?thesis unfolding handed_def by simp
qed

subsection \<open>The bookkeeping of one map\<close>

lemma fire_maps:
  "length (maps (step_state (fire m ms err s))) = length (maps s) \<and>
   (\<forall>j. j \<noteq> m \<longrightarrow> maps (step_state (fire m ms err s)) ! j = maps s ! j)"
  by (simp add: fire_def)

lemma async_map_maps:
  "length (maps s) < length (maps (step_state (async_map ns k s))) \<and>
   (\<forall>j<length (maps s). maps (step_state (async_map ns k s)) ! j = maps s ! j)"
  by (simp add: async_map_def Let_def fire_def nth_append)

lemma map_item_maps:
  "length (maps (step_state (map_item m i err v s))) = length (maps s) \<and>
   (\<forall>j. j \<noteq> m \<longrightarrow> maps (step_state (map_item m i err v s)) ! j = maps s ! j)"
  by (simp add: map_item_def Let_def fire_def)

lemma apply_async_maps: "maps (step_state (apply_async f args k s)) = maps s"
  by (simp add: apply_async_def record_call_def split: async_effect.split)

lemma invoke_maps: "maps (step_state (invoke fac k s)) = maps s"
  by (cases fac) (simp_all add: apply_async_maps call_def callSync_def callCtor_def)

lemma resolve_maps:
  "length (maps s) \<le> length (maps (step_state (resolve name k s))) \<and>
   (\<forall>j<length (maps s). maps (step_state (resolve name k s)) ! j = maps s ! j)"
  using async_map_maps
  by (auto simp: resolve_def Let_def invoke_maps setImmediate_def less_imp_le
      split: target.split option.split)

lemma exec_maps_other:
  assumes "m < length (maps s)" and "item_event m i = []"
  shows "m < length (maps (step_state (exec i s))) \<and> maps (step_state (exec i s)) ! m = maps s ! m"
proof (cases i)
  case (IResolve name k)
  with resolve_maps [of s name k] assms(1) show ?thesis by auto
next
  case (ICallback k err v)
  show ?thesis
  proof (cases k)
    case (KMapItem m' j)
    with ICallback assms(2) have "m' \<noteq> m" by (auto split: if_splits)
    with ICallback KMapItem map_item_maps [of m' j err v s] assms(1) show ?thesis by simp
  qed (use ICallback assms(1) in \<open>simp_all add: apply_async_maps apply_sync_def construct_def
          record_call_def split: sync_effect.split\<close>)
next
  case (IMapLoop m' ns j)
  with assms(1) show ?thesis by (cases ns) simp_all
qed

lemma item_calls_snoc [simp]: "item_calls m (T @ [i]) = item_calls m T @ item_event m i"
  by (simp add: item_calls_def)

lemma stored_snoc [simp]: "stored rs (E @ [(i, e, v)]) = js_set (stored rs E) i v"
  by (simp add: stored_def)

lemma stored_Cons [simp]: "stored rs ((i, e, v) # E) = stored (js_set rs i v) E"
  by (simp add: stored_def)

lemma stored_Nil [simp]: "stored rs [] = rs"
  by (simp add: stored_def)

lemma succeeded_Nil [simp]: "succeeded [] = []"
  by (simp add: succeeded_def)

lemma fire_value_none:
  "fire_value k rs E = None \<Longrightarrow> succeeded E = E \<and> length E < k"
proof (induction k rs E rule: fire_value.induct)
  case (3 k rs i err v E)
  then show ?case by (auto simp: succeeded_def split: if_splits)
qed (simp_all add: succeeded_def)

lemma fire_value_snoc_none:
  "fire_value k rs E = None \<Longrightarrow>
   fire_value k rs (E @ [(i, e, v)]) =
     (if truthy e then Some (e, Arr (js_set (stored rs E) i v))
      else if Suc (length E) = k then Some (Null, Arr (js_set (stored rs E) i v))
      else None)"
proof (induction k rs E rule: fire_value.induct)
  case (1 rs E)
  then show ?case by simp
next
  case (2 k rs)
  then show ?case by (cases k) simp_all
next
  case (3 k rs j err w E)
  then show ?case by (auto split: if_splits)
qed

lemma fire_value_snoc_some:
  "fire_value k rs E = Some x \<Longrightarrow> fire_value k rs (E @ E') = Some x"
  by (induction k rs E rule: fire_value.induct) (auto split: if_splits)

lemma succeeded_snoc [simp]:
  "succeeded (E @ [(i, e, v)]) = succeeded E @ (if truthy e then [] else [(i, e, v)])"
  by (simp add: succeeded_def)

text \<open>One item callback of the tracked map.\<close>

lemma tracks_item:
  assumes t: "tracks m k K T (ICallback (KMapItem m j) e v # is) s"
      and x: "exec (ICallback (KMapItem m j) e v) s = Next js s'"
  shows "tracks m k K (T @ [ICallback (KMapItem m j) e v]) (js @ is) s'"
proof -
  let ?E = "item_calls m T"
  let ?i = "ICallback (KMapItem m j) e v"
  let ?ms = "maps s ! m"
  from t have m: "m < length (maps s)" and tot: "total ?ms = k" and fin: "final ?ms = K"
    and res: "results ?ms = stored [] ?E" and com: "completed ?ms = length (succeeded ?E)"
    and fi: "fired ?ms = (fire_value k [] ?E \<noteq> None)"
    and del: "\<forall>e r. fire_value k [] ?E = Some (e, r) \<longrightarrow>
                ICallback K e r \<in> set T \<or> (\<exists>rest. ?i # is = ICallback K e r # rest)"
    unfolding tracks_def by simp_all
  have E': "item_calls m (T @ [?i]) = ?E @ [(j, e, v)]" by simp
  show ?thesis
  proof (cases "fire_value k [] ?E")
    case (Some y)
    with fi have f: "fired ?ms" by simp
    from fire_value_snoc_some [OF Some] have fv: "fire_value k [] (?E @ [(j, e, v)]) = Some y" .
    from x m f have js: "js = []"
      and s': "s' = s\<lparr>maps := (maps s)[m := (if truthy e
                 then ?ms\<lparr>results := js_set (results ?ms) j v\<rparr>
                 else ?ms\<lparr>results := js_set (results ?ms) j v,
                          completed := Suc (completed ?ms)\<rparr>)]\<rparr>"
      by (auto simp: map_item_def Let_def fire_def split: if_splits)
    obtain e0 r0 where y: "y = (e0, r0)" by (cases y)
    from del Some y have "ICallback K e0 r0 \<in> set T \<or> ?i = ICallback K e0 r0" by auto
    then have d: "ICallback K e0 r0 \<in> set (T @ [?i])" by auto
    show ?thesis
      unfolding tracks_def E'
      using m tot fin res com f fv d y by (auto simp add: s' js)
  next
    case None
    with fi have f: "\<not> fired ?ms" by simp
    from fire_value_none [OF None] have all: "succeeded ?E = ?E" and len: "length ?E < k" by simp_all
    from com all have c: "completed ?ms = length ?E" by simp
    note fv = fire_value_snoc_none [OF None, of j e v]
    show ?thesis
    proof (cases "truthy e")
      case True
      with x m f fin res have js: "js = [ICallback K e (Arr (js_set (stored [] ?E) j v))]"
        and s': "s' = s\<lparr>maps := (maps s)[m := ?ms\<lparr>results := js_set (results ?ms) j v,
                                                   fired := True\<rparr>]\<rparr>"
        by (auto simp: map_item_def Let_def fire_def)
      show ?thesis
        unfolding tracks_def E'
        using m tot fin res com True fv by (simp add: s' js)
    next
      case False
      show ?thesis
      proof (cases "Suc (length ?E) = k")
        case True
        with x m f fin res c tot False
        have js: "js = [ICallback K Null (Arr (js_set (stored [] ?E) j v))]"
          and s': "s' = s\<lparr>maps := (maps s)[m := ?ms\<lparr>results := js_set (results ?ms) j v,
                                 completed := Suc (completed ?ms), fired := True\<rparr>]\<rparr>"
          by (auto simp: map_item_def Let_def fire_def)
        show ?thesis
          unfolding tracks_def E'
          using m tot fin res com True False fv by (simp add: s' js)
      next
        case ne: False
        with x m f fin res c tot False
        have js: "js = []"
          and s': "s' = s\<lparr>maps := (maps s)[m := ?ms\<lparr>results := js_set (results ?ms) j v,
                                 completed := Suc (completed ?ms)\<rparr>]\<rparr>"
          by (auto simp: map_item_def Let_def fire_def)
        show ?thesis
          unfolding tracks_def E'
          using m tot fin res com ne False fv f by (simp add: s' js)
      qed
    qed
  qed
qed

lemma item_event_cases:
  "item_event m i = [] \<or> (\<exists>j e v. i = ICallback (KMapItem m j) e v)"
proof (cases i)
  case (ICallback k e v)
  then show ?thesis by (cases k) auto
qed simp_all

lemma tracks_step:
  assumes t: "tracks m k K T (i # is) s" and x: "step_state (exec i s) = s'"
      and st: "\<And>js. exec i s = Next js s' \<Longrightarrow> stack = js @ is"
              "\<And>e. exec i s = Throw e s' \<Longrightarrow> stack = []"
  shows "tracks m k K (T @ [i]) stack s'"
proof -
  from item_event_cases [of m i] show ?thesis
  proof
    assume ev: "item_event m i = []"
    from t have m: "m < length (maps s)" unfolding tracks_def by simp
    from exec_maps_other [OF m ev] x
    have m': "m < length (maps s')" and eq: "maps s' ! m = maps s ! m" by simp_all
    from t have del: "\<forall>e r. fire_value k [] (item_calls m T) = Some (e, r) \<longrightarrow>
                ICallback K e r \<in> set T \<or> (\<exists>rest. i # is = ICallback K e r # rest)"
      unfolding tracks_def by simp
    then have "\<forall>e r. fire_value k [] (item_calls m T) = Some (e, r) \<longrightarrow>
                ICallback K e r \<in> set (T @ [i])" by auto
    with t m' eq ev show ?thesis unfolding tracks_def by simp
  next
    assume "\<exists>j e v. i = ICallback (KMapItem m j) e v"
    then obtain j e v where i: "i = ICallback (KMapItem m j) e v" by blast
    obtain js where n: "exec i s = Next js s'"
      using x i by (cases "exec i s") (auto simp: map_item_def Let_def fire_def split: if_splits)
    from tracks_item [OF t [unfolded i] n [unfolded i]] st(1) [OF n] i show ?thesis by simp
  qed
qed

lemma tracks_run:
  assumes "tracks m k K T is s"
  shows "tracks m k K (T @ trace_all n1 n2 is s) (fst (stop_all n1 n2 is s))
           (snd (stop_all n1 n2 is s))"
proof (rule stop_all_inv [where I = "tracks m k K"])
  fix T i js t ks t' assume "tracks m k K T (i # js) t" "exec i t = Next ks t'"
  then show "tracks m k K (T @ [i]) (ks @ js) t'"
    using tracks_step [of m k K T i js t t' "ks @ js"] by simp
next
  fix T i js t e t' assume "tracks m k K T (i # js) t" "exec i t = Throw e t'"
  then show "tracks m k K (T @ [i]) [] t'"
    using tracks_step [of m k K T i js t t' "[]"] by simp
next
  fix T t k' e v ts assume "tracks m k K T [] t"
  then show "tracks m k K T [ICallback k' e v] (t\<lparr>queue := ts\<rparr>)" unfolding tracks_def by simp
next
  fix T t d k' e v ts assume "tracks m k K T [] t"
  then show "tracks m k K T [] (t\<lparr>queue := ts @ [Task d k' e v]\<rparr>)" unfolding tracks_def by simp
qed fact

text \<open>The state right after the call of async.map.\<close>

lemma tracks_start:
  assumes "exec i0 s = async_map ns K s" and "item_calls (length (maps s)) T = []"
  shows "\<exists>js s1. exec i0 s = Next js s1 \<and> tracks (length (maps s)) (length ns) K T js s1"
proof (cases ns)
  case Nil
  with assms show ?thesis
    by (simp add: async_map_def Let_def fire_def tracks_def)
next
  case (Cons n rest)
  with assms show ?thesis
    by (simp add: async_map_def Let_def fire_def tracks_def)
qed

subsection \<open>What the final callback receives\<close>

text \<open>What the stored results hold: for every index that was written, the value written last.\<close>

lemma stored_last:
  "filter (\<lambda>ev. fst ev = i) E \<noteq> [] \<Longrightarrow>
     i < length (stored rs E) \<and>
     stored rs E ! i = snd (snd (last (filter (\<lambda>ev. fst ev = i) E)))"
proof (induction E rule: rev_induct)
  case Nil
  then show ?case by simp
next
  case (snoc x E)
  obtain j e v where x: "x = (j, e, v)" by (cases x)
  show ?case
  proof (cases "j = i")
    case True
    with x show ?thesis by (simp add: length_js_set nth_js_set_eq)
  next
    case False
    with snoc.prems x have "filter (\<lambda>ev. fst ev = i) E \<noteq> []" by simp
    from snoc.IH [OF this] False x show ?thesis
      by (auto simp: length_js_set nth_js_set_neq)
  qed
qed

lemma stored_length:
  "\<forall>ev\<in>set E. fst ev < k \<Longrightarrow> length (stored rs E) \<le> max (length rs) k"
proof (induction E rule: rev_induct)
  case Nil
  then show ?case by simp
next
  case (snoc x E)
  obtain j e v where x: "x = (j, e, v)" by (cases x)
  with snoc show ?case by (auto simp: length_js_set)
qed

lemma values_upto_meaning:
  "values_upto E k = Some vs \<Longrightarrow>
     length vs = k \<and>
     (\<forall>i<k. \<exists>e. \<not> truthy e \<and> filter (\<lambda>ev. fst ev = i) E = [(i, e, vs ! i)])"
proof (induction k arbitrary: vs)
  case 0
  then show ?case by simp
next
  case (Suc k)
  from Suc.prems obtain ws where ws: "values_upto E k = Some ws"
    by (auto split: option.splits)
  from Suc.IH [OF ws] have len: "length ws = k"
    and old: "\<forall>i<k. \<exists>e. \<not> truthy e \<and> filter (\<lambda>ev. fst ev = i) E = [(i, e, ws ! i)]"
    by simp_all
  from Suc.prems ws obtain j e v where f: "filter (\<lambda>ev. fst ev = k) E = [(j, e, v)]"
    and e: "\<not> truthy e" and vs: "vs = ws @ [v]"
    by (auto split: list.splits if_splits)
  have "(j, e, v) \<in> set (filter (\<lambda>ev. fst ev = k) E)" using f by simp
  then have j: "j = k" by simp
  show ?case
  proof (intro conjI allI impI)
    show "length vs = Suc k" using vs len by simp
  next
    fix i assume "i < Suc k"
    show "\<exists>e. \<not> truthy e \<and> filter (\<lambda>ev. fst ev = i) E = [(i, e, vs ! i)]"
    proof (cases "i = k")
      case True
      with f e j vs len show ?thesis by (auto simp: nth_append)
    next
      case False
      with \<open>i < Suc k\<close> have "i < k" by simp
      with old vs len show ?thesis by (auto simp: nth_append)
    qed
  qed
qed

lemma length_filter_below:
  "length (filter (\<lambda>ev. fst ev < k) E) = (\<Sum>i<k. length (filter (\<lambda>ev. fst ev = i) (E :: (nat \<times> 'a) list)))"
proof (induction k)
  case 0
  then show ?case by simp
next
  case (Suc k)
  have "length (filter (\<lambda>ev. fst ev < Suc k) E) =
        length (filter (\<lambda>ev. fst ev < k) E) + length (filter (\<lambda>ev. fst ev = k) E)"
    by (induction E) auto
  with Suc show ?case by simp
qed

lemma each_once:
  assumes len: "length E = k"
      and once: "\<forall>i<k. \<exists>e. \<not> truthy e \<and> filter (\<lambda>ev. fst ev = i) E = [(i, e, vs ! i)]"
  shows "(\<forall>ev\<in>set E. fst ev < k) \<and> succeeded E = E"
proof -
  have "(\<Sum>i<k. length (filter (\<lambda>ev. fst ev = i) E)) = (\<Sum>i<k. 1)"
    using once by (intro sum.cong) auto
  then have "length (filter (\<lambda>ev. fst ev < k) E) = length E"
    using len by (simp add: length_filter_below)
  then have "filter (\<lambda>ev. fst ev < k) E = E"
    by (metis filter_True length_filter_less less_irrefl)
  then have below: "\<forall>ev\<in>set E. fst ev < k" by (simp add: filter_id_conv)
  have "\<forall>ev\<in>set E. \<not> truthy (fst (snd ev))"
  proof
    fix ev assume ev: "ev \<in> set E"
    with below have "fst ev < k" by simp
    with once obtain e where e: "\<not> truthy e"
      and f: "filter (\<lambda>x. fst x = fst ev) E = [(fst ev, e, vs ! fst ev)]" by blast
    from ev have "ev \<in> set (filter (\<lambda>x. fst x = fst ev) E)" by simp
    with f have "ev = (fst ev, e, vs ! fst ev)" by simp
    then have "fst (snd ev) = e" by (metis fst_conv snd_conv)
    with e show "\<not> truthy (fst (snd ev))" by simp
  qed
  then have "succeeded E = E" by (simp add: succeeded_def filter_id_conv)
  with below show ?thesis by simp
qed

lemma fire_value_all:
  "succeeded E = E \<Longrightarrow> length E = k \<Longrightarrow> fire_value k rs E = Some (Null, Arr (stored rs E))"
proof (induction E arbitrary: k rs)
  case Nil
  then show ?case by simp
next
  case (Cons x E)
  obtain j e v where x: "x = (j, e, v)" by (cases x)
  from Cons.prems(1) have "\<forall>ev\<in>set (x # E). \<not> truthy (fst (snd ev))"
    by (simp only: succeeded_def filter_id_conv)
  with x have e: "\<not> truthy e" and r: "succeeded E = E"
    by (simp_all add: succeeded_def filter_id_conv)
  from Cons.prems(2) obtain k' where k: "k = Suc k'" "length E = k'" by (cases k) auto
  from Cons.IH [OF r k(2), of "js_set rs j v"] x e k show ?case by simp
qed

text \<open>
  When every item callback was called once, without an error, the final callback
  is due with the values in the order of the items.
\<close>

lemma item_values_fire:
  assumes "item_values m k T = Some vs"
  shows "fire_value k [] (item_calls m T) = Some (Null, Arr vs)"
proof -
  let ?E = "item_calls m T"
  from assms have len: "length ?E = k" and v: "values_upto ?E k = Some vs"
    by (simp_all add: item_values_def split: if_splits)
  from values_upto_meaning [OF v] have lv: "length vs = k"
    and once: "\<forall>i<k. \<exists>e. \<not> truthy e \<and> filter (\<lambda>ev. fst ev = i) ?E = [(i, e, vs ! i)]"
    by simp_all
  from each_once [OF len once] have below: "\<forall>ev\<in>set ?E. fst ev < k" and su: "succeeded ?E = ?E"
    by simp_all
  have nth: "\<forall>i<k. i < length (stored [] ?E) \<and> stored [] ?E ! i = vs ! i"
  proof (intro allI impI)
    fix i assume "i < k"
    with once obtain e where f: "filter (\<lambda>ev. fst ev = i) ?E = [(i, e, vs ! i)]" by blast
    then have "filter (\<lambda>ev. fst ev = i) ?E \<noteq> []" by simp
    from stored_last [OF this, of "[]"] f
    show "i < length (stored [] ?E) \<and> stored [] ?E ! i = vs ! i" by simp
  qed
  have "length (stored [] ?E) \<le> k" using stored_length [OF below, of "[]"] by simp
  moreover have "k \<le> length (stored [] ?E)"
  proof (cases k)
    case 0
    then show ?thesis by simp
  next
    case (Suc k')
    with nth have "k' < length (stored [] ?E)" by simp
    with Suc show ?thesis by simp
  qed
  ultimately have "length (stored [] ?E) = k" by simp
  with nth lv have "stored [] ?E = vs" by (intro nth_equalityI) simp_all
  with fire_value_all [OF su len, of "[]"] show ?thesis by simp
qed

lemma first_error_fire:
  "first_error k E = Some e \<Longrightarrow> \<exists>r. fire_value k rs E = Some (e, r)"
proof (induction k E arbitrary: rs rule: first_error.induct)
  case (3 k i err v E)
  then show ?case by (cases "truthy err") auto
qed simp_all

subsection \<open>The resolutions of the items\<close>

lemma exec_maps_length: "length (maps s) \<le> length (maps (step_state (exec i s)))"
proof (cases i)
  case (IResolve name k)
  with resolve_maps [of s name k] show ?thesis by simp
next
  case (ICallback k err v)
  then show ?thesis
    by (cases k)
       (simp_all add: map_item_maps apply_async_maps apply_sync_def construct_def
          record_call_def split: sync_effect.split)
next
  case (IMapLoop m' ns j)
  then show ?thesis by (cases ns) simp_all
qed

lemma async_map_disp:
  "m < length (maps s) \<Longrightarrow> async_map xs K s = Next js s' \<Longrightarrow> \<forall>x\<in>set js. disp_ok m ns x"
  by (cases K) (auto simp: async_map_def Let_def fire_def split: if_splits)

lemma apply_async_disp:
  "apply_async f args K s = Next js s' \<Longrightarrow> \<forall>x\<in>set js. disp_ok m ns x"
  by (cases K) (auto simp: apply_async_def split: async_effect.splits)

lemma invoke_disp:
  "invoke fac K s = Next js s' \<Longrightarrow> \<forall>x\<in>set js. disp_ok m ns x"
  using apply_async_disp
  by (cases fac) (auto simp: call_def callSync_def callCtor_def)

lemma resolve_disp:
  assumes "m < length (maps s)" and "resolve name K s = Next js s'"
  shows "\<forall>x\<in>set js. disp_ok m ns x"
proof (cases name)
  case (Names xs)
  with assms async_map_disp [of m s xs K js s' ns] show ?thesis by (simp add: resolve_def)
next
  case (Name n)
  show ?thesis
  proof (cases "the_registry s n")
    case None
    with Name assms async_map_disp [of m s _ K js s' ns] show ?thesis
      by (auto simp: resolve_def setImmediate_def split: option.splits if_splits)
  next
    case (Some r)
    have "resolve name K s = Next [ICallback K Null (the (the_instances s n))] s \<or>
          resolve name K s = invoke (factory r) (KCache n (config_singleton (config r)) K) s"
      using Name Some by (auto simp: resolve_def Let_def split: option.splits)
    with assms(2) invoke_disp [of "factory r" _ s js s' m ns] show ?thesis by auto
  qed
qed

lemma map_item_disp:
  "map_item m' i err v s = Next js s' \<Longrightarrow> \<forall>x\<in>set js. disp_ok m ns x"
  by (auto simp: map_item_def Let_def fire_def split: if_splits)

lemma exec_disp:
  assumes m: "m < length (maps s)" and ok: "disp_ok m ns i" and x: "exec i s = Next js s'"
  shows "\<forall>x\<in>set js. disp_ok m ns x"
proof (cases i)
  case (IResolve name k)
  with resolve_disp [OF m, of name k js s' ns] x show ?thesis by simp
next
  case (ICallback k err v)
  show ?thesis
  proof (cases k)
    case (KMapItem m' j)
    with ICallback x map_item_disp [of m' j err v s js s' m ns] show ?thesis by simp
  next
    case (KCall f k')
    with ICallback x apply_async_disp [of f _ k' s js s' m ns] show ?thesis
      by (auto split: if_splits)
  qed (use ICallback x in \<open>auto simp: apply_sync_def construct_def split: if_splits sync_effect.splits\<close>)
next
  case (IMapLoop m' xs j)
  show ?thesis
  proof (cases xs)
    case Nil
    with IMapLoop x show ?thesis by auto
  next
    case (Cons n rest)
    with IMapLoop x have js: "js = [IResolve (Name n) (KMapItem m' j), IMapLoop m' rest (Suc j)]"
      by auto
    show ?thesis
    proof (cases "m' = m")
      case True
      with ok IMapLoop Cons have d: "drop j ns = n # rest" and "j \<le> length ns" by simp_all
      then have jl: "j < length ns" by (cases "j = length ns") auto
      from d have "ns ! j = n" by (rule nth_via_drop)
      moreover from d jl have "rest = drop (Suc j) ns"
        by (metis Cons_nth_drop_Suc list.inject)
      ultimately show ?thesis using js jl by simp
    next
      case False
      with js show ?thesis by simp
    qed
  qed
qed

lemma dispatches_run:
  assumes "dispatches m ns T is s"
  shows "dispatches m ns (T @ trace_all n1 n2 is s) (fst (stop_all n1 n2 is s))
           (snd (stop_all n1 n2 is s))"
proof (rule stop_all_inv [where I = "dispatches m ns"])
  fix T i js t ks t' assume d: "dispatches m ns T (i # js) t" and x: "exec i t = Next ks t'"
  from d have m: "m < length (maps t)" and ok: "disp_ok m ns i" unfolding dispatches_def by simp_all
  from exec_maps_length [of t i] x m have "m < length (maps t')" by simp
  moreover from exec_disp [OF m ok x] have "\<forall>x\<in>set ks. disp_ok m ns x" .
  ultimately show "dispatches m ns (T @ [i]) (ks @ js) t'"
    using d unfolding dispatches_def by auto
next
  fix T i js t e t' assume d: "dispatches m ns T (i # js) t" and x: "exec i t = Throw e t'"
  from d have m: "m < length (maps t)" unfolding dispatches_def by simp
  from exec_maps_length [of t i] x m have "m < length (maps t')" by simp
  then show "dispatches m ns (T @ [i]) [] t'"
    using d unfolding dispatches_def by auto
next
  fix T t k' e v ts assume "dispatches m ns T [] t"
  then show "dispatches m ns T [ICallback k' e v] (t\<lparr>queue := ts\<rparr>)"
    unfolding dispatches_def by (cases k') auto
next
  fix T t d k' e v ts assume "dispatches m ns T [] t"
  then show "dispatches m ns T [] (t\<lparr>queue := ts @ [Task d k' e v]\<rparr>)"
    unfolding dispatches_def by simp
qed fact

subsection \<open>The caller's callback is called at most once\<close>

lemma sum_list_update_map:
  "m < length xs \<Longrightarrow>
     sum_list (map f (xs[m := y])) + f (xs ! m) = sum_list (map f xs) + (f y :: nat)"
proof (induction xs arbitrary: m)
  case Nil
  then show ?case by simp
next
  case (Cons x xs)
  then show ?case by (cases m) auto
qed

lemma fire_held:
  assumes "m < length (maps s)" and "fired ms = fired (maps s ! m)"
      and "final ms = final (maps s ! m)"
  shows "step_held c (held c s) (fire m ms err s)"
proof (cases "fired ms")
  case True
  with assms have "map_holds c ms = map_holds c (maps s ! m)" by (simp add: map_holds_def)
  with sum_list_update_map [OF assms(1), of "map_holds c" ms] True
  show ?thesis by (simp add: step_held_def fire_def held_def)
next
  case False
  with assms have a: "map_holds c (maps s ! m) = (if root_is c (final ms) then 1 else 0)"
    by (simp add: map_holds_def)
  have b: "map_holds c (ms\<lparr>fired := True\<rparr>) = 0" by (simp add: map_holds_def)
  from sum_list_update_map [OF assms(1), of "map_holds c" "ms\<lparr>fired := True\<rparr>"] a b False
  show ?thesis by (simp add: step_held_def fire_def held_def)
qed

lemma map_item_held: "step_held c (held c s) (map_item m i err v s)"
proof (cases "m < length (maps s)")
  case False
  then show ?thesis by (simp add: map_item_def step_held_def)
next
  case True
  let ?ms = "(maps s ! m)\<lparr>results := js_set (results (maps s ! m)) i v\<rparr>"
  show ?thesis
  proof (cases "truthy err")
    case e: True
    with True fire_held [OF True, of ?ms c err] show ?thesis by (simp add: map_item_def Let_def)
  next
    case e: False
    show ?thesis
    proof (cases "Suc (completed ?ms) = total ?ms")
      case c: True
      from fire_held [OF True, of "?ms\<lparr>completed := Suc (completed ?ms)\<rparr>" c Null] True e c
      show ?thesis by (simp add: map_item_def Let_def)
    next
      case c: False
      have "map_holds c (?ms\<lparr>completed := Suc (completed ?ms)\<rparr>) = map_holds c (maps s ! m)"
        by (simp add: map_holds_def)
      with sum_list_update_map [OF True, of "map_holds c" "?ms\<lparr>completed := Suc (completed ?ms)\<rparr>"]
        True e c
      show ?thesis by (simp add: map_item_def Let_def step_held_def held_def)
    qed
  qed
qed

lemma async_map_held:
  "step_held c ((if root_is c K then 1 else 0) + held c s) (async_map ns K s)"
  by (simp add: async_map_def Let_def fire_def step_held_def held_def map_holds_def)

lemma apply_async_held:
  "step_held c ((if root_is c K then 1 else 0) + held c s) (apply_async f args K s)"
  by (simp add: apply_async_def record_call_def step_held_def held_def split: async_effect.split)

lemma invoke_held:
  "step_held c ((if root_is c K then 1 else 0) + held c s) (invoke fac K s)"
  using apply_async_held [of c K s]
  by (cases fac) (simp_all add: call_def callSync_def callCtor_def step_held_def)

lemma resolve_held:
  "step_held c ((if root_is c K then 1 else 0) + held c s) (resolve name K s)"
proof (cases name)
  case (Names xs)
  with async_map_held [of c K s xs] show ?thesis by (simp add: resolve_def)
next
  case (Name n)
  show ?thesis
  proof (cases "the_registry s n")
    case None
    have "resolve name K s = Next [] (setImmediate K (unknown n) Undefined s) \<or>
          (\<exists>impls. resolve name K s = async_map impls K s)"
      using Name None by (auto simp: resolve_def split: option.splits)
    moreover have "step_held c ((if root_is c K then 1 else 0) + held c s)
                     (Next [] (setImmediate K (unknown n) Undefined s))"
      by (simp add: setImmediate_def step_held_def held_def)
    ultimately show ?thesis using async_map_held [of c K s] by auto
  next
    case (Some r)
    have "resolve name K s = Next [ICallback K Null (the (the_instances s n))] s \<or>
          resolve name K s = invoke (factory r) (KCache n (config_singleton (config r)) K) s"
      using Name Some by (auto simp: resolve_def Let_def split: option.splits)
    then show ?thesis
    proof
      assume "resolve name K s = Next [ICallback K Null (the (the_instances s n))] s"
      then show ?thesis by (simp add: step_held_def)
    next
      assume "resolve name K s =
                invoke (factory r) (KCache n (config_singleton (config r)) K) s"
      with invoke_held [of c "KCache n (config_singleton (config r)) K" s "factory r"]
      show ?thesis by simp
    qed
  qed
qed

lemma held_frame [simp]:
  "held c (s\<lparr>log := l\<rparr>) = held c s"
  "held c (s\<lparr>the_instances := i\<rparr>) = held c s"
  "held c (s\<lparr>calls := cs\<rparr>) = held c s"
  by (simp_all add: held_def)

lemma exec_held:
  "step_held c (holds c i + held c s - length (received c (top_call i))) (exec i s) \<and>
   length (received c (top_call i)) \<le> holds c i"
proof (cases i)
  case (IResolve name k)
  with resolve_held [of c k s name] show ?thesis by (simp add: received_def)
next
  case (ICallback k err v)
  show ?thesis
  proof (cases k)
    case (KTop c')
    with ICallback show ?thesis by (simp add: step_held_def received_def)
  next
    case (KCache n b k')
    with ICallback show ?thesis by (simp add: step_held_def received_def)
  next
    case (KCallSync f k')
    with ICallback show ?thesis
      by (simp add: step_held_def received_def apply_sync_def record_call_def
          split: sync_effect.split)
  next
    case (KCallCtor f k')
    with ICallback show ?thesis
      by (simp add: step_held_def received_def construct_def record_call_def
          split: sync_effect.split)
  next
    case (KCall f k')
    with ICallback apply_async_held [of c k' s f "elems v"] show ?thesis
      by (simp add: step_held_def received_def)
  next
    case (KMapItem m j)
    with ICallback map_item_held [of c s m j err v] show ?thesis by (simp add: received_def)
  qed
next
  case (IMapLoop m ns j)
  then show ?thesis by (cases ns) (simp_all add: step_held_def received_def)
qed

lemma received_append [simp]: "received c (xs @ ys) = received c xs @ received c ys"
  by (simp add: received_def)

lemma owed_run:
  assumes "owed c B T is s"
  shows "owed c B (T @ trace_all n1 n2 is s) (fst (stop_all n1 n2 is s))
           (snd (stop_all n1 n2 is s))"
proof (rule stop_all_inv [where I = "owed c B"])
  fix T i js t ks t' assume o: "owed c B T (i # js) t" and x: "exec i t = Next ks t'"
  from exec_held [of c i t] x
  have "sum_list (map (holds c) ks) + held c t' \<le> holds c i + held c t - length (received c (top_call i))"
    and "length (received c (top_call i)) \<le> holds c i"
    by (simp_all add: step_held_def)
  with o show "owed c B (T @ [i]) (ks @ js) t'" by (simp add: owed_def)
next
  fix T i js t e t' assume o: "owed c B T (i # js) t" and x: "exec i t = Throw e t'"
  from exec_held [of c i t] x
  have "held c t' \<le> holds c i + held c t - length (received c (top_call i))"
    and "length (received c (top_call i)) \<le> holds c i"
    by (simp_all add: step_held_def)
  with o show "owed c B (T @ [i]) [] t'" by (simp add: owed_def)
next
  fix T t k' e v ts assume "owed c B T [] t" "queue t = Task 0 k' e v # ts"
  then show "owed c B T [ICallback k' e v] (t\<lparr>queue := ts\<rparr>)"
    by (simp add: owed_def held_def)
next
  fix T t d k' e v ts assume "owed c B T [] t" "queue t = Task (Suc d) k' e v # ts"
  then show "owed c B T [] (t\<lparr>queue := ts @ [Task d k' e v]\<rparr>)"
    by (simp add: owed_def held_def)
qed fact

text \<open>
  A callback that the container does not hold yet is called at most once, and not at
  all while its call is still pending.
\<close>

lemma called_at_most_once:
  assumes "held c s = 0"
  shows "sum_list (map (holds c) (still_pending n t c s)) +
         length (received c (tops (trace_resolve n t c s))) \<le> 1"
proof -
  have "owed c 1 [] [IResolve t (KTop c)] s" using assms by (simp add: owed_def tops_def received_def)
  from owed_run [OF this, of n n]
  show ?thesis by (simp add: owed_def still_pending_def stop_resolve_all trace_resolve_all)
qed

subsection \<open>From the items to the final callback and beyond\<close>

lemma async_map_next: "\<exists>js s1. async_map ns K s = Next js s1"
  by (simp add: async_map_def Let_def fire_def)

text \<open>
  The final callback of an async.map is called with what the calls of its item
  callbacks determine, and its item callbacks are handed to the resolutions of its
  items, each to the one of its index.
\<close>

lemma map_delivery:
  assumes first: "exec (IResolve t K) s = async_map ns K s"
      and K: "disp_ok (length (maps s)) ns (IResolve t K)"
  shows "\<forall>e r. fire_value (length ns) [] (item_calls (length (maps s))
                  (trace_all (Suc n1) n2 [IResolve t K] s)) = Some (e, r) \<longrightarrow>
           ICallback K e r \<in> set (trace_all (Suc n1) n2 [IResolve t K] s) \<or>
           (\<exists>rest. fst (stop_all (Suc n1) n2 [IResolve t K] s) = ICallback K e r # rest)"
    and "\<forall>x\<in>set (trace_all (Suc n1) n2 [IResolve t K] s). disp_ok (length (maps s)) ns x"
proof -
  let ?i = "IResolve t K" and ?m = "length (maps s)"
  have ic: "item_calls ?m [?i] = []" by (simp add: item_calls_def)
  from tracks_start [OF first ic] obtain js s1 where
    x: "exec ?i s = Next js s1" and tr: "tracks ?m (length ns) K [?i] js s1" by blast
  from run_all_step [OF x, of n1 n2 "[]"]
  have t: "trace_all (Suc n1) n2 [?i] s = [?i] @ trace_all n1 n2 js s1"
    and st: "stop_all (Suc n1) n2 [?i] s = stop_all n1 n2 js s1" by simp_all
  from tracks_run [OF tr, of n1 n2] t st
  have "tracks ?m (length ns) K (trace_all (Suc n1) n2 [?i] s)
          (fst (stop_all (Suc n1) n2 [?i] s)) (snd (stop_all (Suc n1) n2 [?i] s))" by simp
  then show "\<forall>e r. fire_value (length ns) [] (item_calls ?m (trace_all (Suc n1) n2 [?i] s)) =
                 Some (e, r) \<longrightarrow>
           ICallback K e r \<in> set (trace_all (Suc n1) n2 [?i] s) \<or>
           (\<exists>rest. fst (stop_all (Suc n1) n2 [?i] s) = ICallback K e r # rest)"
    unfolding tracks_def by simp
  from tr have m: "?m < length (maps s1)" unfolding tracks_def by simp
  have "\<forall>x\<in>set js. disp_ok ?m ns x"
    using first x by (cases ns) (auto simp: async_map_def Let_def fire_def)
  with m K have "dispatches ?m ns [?i] js s1" unfolding dispatches_def by simp
  from dispatches_run [OF this, of n1 n2] t
  show "\<forall>x\<in>set (trace_all (Suc n1) n2 [?i] s). disp_ok ?m ns x" unfolding dispatches_def by simp
qed

lemma tops_mem: "ICallback (KTop c) e v \<in> set T \<Longrightarrow> (c, e, v) \<in> set (tops T)"
  by (force simp: tops_def)

lemma received_once:
  assumes "length (received c new) \<le> 1" and "(c, e, v) \<in> set new"
  shows "received c new = [(c, e, v)]"
proof -
  from assms(2) have "(c, e, v) \<in> set (received c new)" by (simp add: received_def)
  with assms(1) show ?thesis by (cases "received c new") auto
qed

lemma disp_ok_item:
  "disp_ok m ns (IResolve u (KMapItem m j)) \<Longrightarrow> u = Name (ns ! j) \<and> j < length ns"
  by simp

text \<open>
  A call \<open>j\<close> of a callback that leads to the caller's callback \<open>c\<close>: when the call of
  \<open>c\<close> with \<open>(e, v)\<close> has been made, or \<open>j\<close> is the next pending call, the caller has
  received \<open>(e, v)\<close>, and nothing else if the container did not hold \<open>c\<close> already,
  or \<open>j\<close> is still to be made, and \<open>c\<close> has received nothing if the container did not
  hold it.
\<close>

lemma delivery:
  assumes mem: "ICallback (KTop c) e v \<in> set (trace_resolve n t c s) \<or>
                (\<exists>j rest. still_pending n t c s = j # rest \<and> P j)"
      and P: "\<And>j. P j \<Longrightarrow> holds c j = 1"
  shows "\<exists>new. log (state_reached n t c s) = log s @ new \<and>
           ((c, e, v) \<in> set new \<and> (held c s = 0 \<longrightarrow> received c new = [(c, e, v)]) \<or>
            (\<exists>j rest. still_pending n t c s = j # rest \<and> P j) \<and>
            (held c s = 0 \<longrightarrow> received c new = []))"
proof -
  let ?T = "trace_resolve n t c s"
  have l: "log (state_reached n t c s) = log s @ tops ?T"
    using logged_run [of n n "[IResolve t (KTop c)]" s]
    by (simp add: state_reached_def stop_resolve_all trace_resolve_all)
  have "(c, e, v) \<in> set (tops ?T) \<and> (held c s = 0 \<longrightarrow> received c (tops ?T) = [(c, e, v)]) \<or>
        (\<exists>j rest. still_pending n t c s = j # rest \<and> P j) \<and>
        (held c s = 0 \<longrightarrow> received c (tops ?T) = [])"
  proof (cases "ICallback (KTop c) e v \<in> set ?T")
    case True
    then have m: "(c, e, v) \<in> set (tops ?T)" by (rule tops_mem)
    have "held c s = 0 \<longrightarrow> received c (tops ?T) = [(c, e, v)]"
    proof
      assume "held c s = 0"
      from called_at_most_once [OF this, of n t]
      have "length (received c (tops ?T)) \<le> 1" by simp
      from received_once [OF this m] show "received c (tops ?T) = [(c, e, v)]" .
    qed
    with m show ?thesis by simp
  next
    case False
    with mem obtain j rest where
      p: "still_pending n t c s = j # rest" and r: "P j" by blast
    have "held c s = 0 \<longrightarrow> received c (tops ?T) = []"
    proof
      assume "held c s = 0"
      from called_at_most_once [OF this, of n t] p P [OF r]
      show "received c (tops ?T) = []" by simp
    qed
    with p r show ?thesis by blast
  qed
  with l show ?thesis by (intro exI [of _ "tops ?T"]) simp
qed

text \<open>A list of names, or an interface name, resolved for a caller.\<close>

lemma list_delivered:
  assumes first: "exec (IResolve t (KTop c)) s = async_map ns (KTop c) s"
      and items: "item_values (length (maps s)) (length ns) (trace_resolve (Suc n) t c s) = Some vs"
  shows "\<exists>new. log (state_reached (Suc n) t c s) = log s @ new \<and>
           ((c, Null, Arr vs) \<in> set new \<and>
            (held c s = 0 \<longrightarrow> received c new = [(c, Null, Arr vs)]) \<or>
            (\<exists>j rest. still_pending (Suc n) t c s = j # rest \<and>
                      j = ICallback (KTop c) Null (Arr vs)) \<and>
            (held c s = 0 \<longrightarrow> received c new = []))"
    and "\<forall>j u. IResolve u (KMapItem (length (maps s)) j) \<in> set (trace_resolve (Suc n) t c s) \<longrightarrow>
               u = Name (ns ! j) \<and> j < length ns"
proof -
  let ?T = "trace_resolve (Suc n) t c s"
  have K: "disp_ok (length (maps s)) ns (IResolve t (KTop c))" by simp
  have T: "trace_all (Suc n) (Suc n) [IResolve t (KTop c)] s = ?T" by (simp add: trace_resolve_all)
  have S: "fst (stop_all (Suc n) (Suc n) [IResolve t (KTop c)] s) = still_pending (Suc n) t c s"
    by (simp add: still_pending_def stop_resolve_all)
  note d = map_delivery [OF first K, of n "Suc n", unfolded T S]
  from item_values_fire [OF items]
  have "fire_value (length ns) [] (item_calls (length (maps s)) ?T) = Some (Null, Arr vs)" .
  with d(1) have "ICallback (KTop c) Null (Arr vs) \<in> set ?T \<or>
         (\<exists>j rest. still_pending (Suc n) t c s = j # rest \<and> j = ICallback (KTop c) Null (Arr vs))"
    by simp
  from delivery [where P = "\<lambda>j. j = ICallback (KTop c) Null (Arr vs)", OF this]
  show "\<exists>new. log (state_reached (Suc n) t c s) = log s @ new \<and>
           ((c, Null, Arr vs) \<in> set new \<and>
            (held c s = 0 \<longrightarrow> received c new = [(c, Null, Arr vs)]) \<or>
            (\<exists>j rest. still_pending (Suc n) t c s = j # rest \<and>
                      j = ICallback (KTop c) Null (Arr vs)) \<and>
            (held c s = 0 \<longrightarrow> received c new = []))" by simp
  show "\<forall>j u. IResolve u (KMapItem (length (maps s)) j) \<in> set ?T \<longrightarrow>
               u = Name (ns ! j) \<and> j < length ns"
  proof (intro allI impI)
    fix j u assume "IResolve u (KMapItem (length (maps s)) j) \<in> set ?T"
    with d(2) have "disp_ok (length (maps s)) ns (IResolve u (KMapItem (length (maps s)) j))"
      by blast
    then show "u = Name (ns ! j) \<and> j < length ns" by simp
  qed
qed

text \<open>What a delivery that may still be pending comes to when the run has ended.\<close>

lemma delivery_ended:
  assumes fin: "resolve_and_wait n t c s = Returned s' \<or> resolve_and_wait n t c s = Threw x s'"
      and d: "\<exists>new. log (state_reached n t c s) = log s @ new \<and>
           ((c, e, v) \<in> set new \<and> (held c s = 0 \<longrightarrow> received c new = [(c, e, v)]) \<or>
            (\<exists>j rest. still_pending n t c s = j # rest \<and> P j) \<and>
            (held c s = 0 \<longrightarrow> received c new = []))"
  shows "\<exists>new. log s' = log s @ new \<and> (c, e, v) \<in> set new \<and>
               (held c s = 0 \<longrightarrow> received c new = [(c, e, v)])"
proof -
  from stop_resolve_ended [OF fin]
  have p: "still_pending n t c s = []" and r: "state_reached n t c s = s'" by simp_all
  from d obtain new where "log s' = log s @ new"
    "(c, e, v) \<in> set new \<and> (held c s = 0 \<longrightarrow> received c new = [(c, e, v)])"
    unfolding p r by auto
  then show ?thesis by (intro exI [of _ new]) simp
qed

text \<open>A name whose stored factory first resolves a list of dependencies.\<close>

lemma dependencies_delivery:
  assumes first: "exec (IResolve (Name n0) (KTop c)) s = Next [IResolve (Names ds) K] s"
      and K: "\<forall>j. K \<noteq> KMapItem (length (maps s)) j"
  shows "\<forall>e r. fire_value (length ds) [] (item_calls (length (maps s))
                  (trace_resolve (Suc (Suc n)) (Name n0) c s)) = Some (e, r) \<longrightarrow>
           ICallback K e r \<in> set (trace_resolve (Suc (Suc n)) (Name n0) c s) \<or>
           (\<exists>rest. still_pending (Suc (Suc n)) (Name n0) c s = ICallback K e r # rest)"
    and "\<forall>j u. IResolve u (KMapItem (length (maps s)) j) \<in>
                 set (trace_resolve (Suc (Suc n)) (Name n0) c s) \<longrightarrow>
               u = Name (ds ! j) \<and> j < length ds"
proof -
  let ?i = "IResolve (Name n0) (KTop c)" and ?i2 = "IResolve (Names ds) K"
  let ?m = "length (maps s)"
  let ?N = "Suc (Suc n)"
  from run_all_step [OF first, of "Suc n" ?N "[]"]
  have t: "trace_resolve ?N (Name n0) c s = ?i # trace_all (Suc n) ?N [?i2] s"
    and st: "still_pending ?N (Name n0) c s = fst (stop_all (Suc n) ?N [?i2] s)"
    by (simp_all add: trace_resolve_all still_pending_def stop_resolve_all)
  have x: "exec ?i2 s = async_map ds K s" by (simp add: resolve_def)
  have ok: "disp_ok ?m ds ?i2" using K by (cases K) auto
  note d = map_delivery [OF x ok, of n ?N]
  have ic: "item_calls ?m (?i # trace_all (Suc n) ?N [?i2] s) =
            item_calls ?m (trace_all (Suc n) ?N [?i2] s)"
    by (simp add: item_calls_def)
  from d(1) show "\<forall>e r. fire_value (length ds) [] (item_calls ?m
                  (trace_resolve ?N (Name n0) c s)) = Some (e, r) \<longrightarrow>
           ICallback K e r \<in> set (trace_resolve ?N (Name n0) c s) \<or>
           (\<exists>rest. still_pending ?N (Name n0) c s = ICallback K e r # rest)"
    unfolding t st ic by simp
  from d(2) show "\<forall>j u. IResolve u (KMapItem ?m j) \<in> set (trace_resolve ?N (Name n0) c s) \<longrightarrow>
               u = Name (ds ! j) \<and> j < length ds"
    unfolding t using disp_ok_item by auto
qed

lemma first_error_truthy: "first_error k E = Some e \<Longrightarrow> truthy e"
  by (induction k E rule: first_error.induct) (auto split: if_splits)

text \<open>
  The first failure among the dependencies reaches the caller through the callbacks
  of \<^verbatim>\<open>callSync\<close> or \<^verbatim>\<open>callCtor\<close> and of \<^verbatim>\<open>resolve\<close>.
\<close>

lemma dependency_failure_delivered:
  assumes first: "exec (IResolve (Name n0) (KTop c)) s = Next [IResolve (Names ds) K] s"
      and K: "K = KCallSync f (KCache n0 b (KTop c)) \<or> K = KCallCtor f (KCache n0 b (KTop c))"
      and fails: "first_failure (length (maps s)) (length ds)
                    (trace_resolve (Suc (Suc n)) (Name n0) c s) = Some e"
  shows "\<exists>new. log (state_reached (Suc (Suc n)) (Name n0) c s) = log s @ new \<and>
           ((c, e, Undefined) \<in> set new \<and>
            (held c s = 0 \<longrightarrow> received c new = [(c, e, Undefined)]) \<or>
            (\<exists>j rest. still_pending (Suc (Suc n)) (Name n0) c s = j # rest \<and>
                      (\<exists>k w. j = ICallback k e w \<and> root_is c k)) \<and>
            (held c s = 0 \<longrightarrow> received c new = []))"
proof -
  let ?N = "Suc (Suc n)"
  let ?T = "trace_resolve ?N (Name n0) c s"
  let ?P = "still_pending ?N (Name n0) c s"
  from K have K': "\<forall>j. K \<noteq> KMapItem (length (maps s)) j" and rk: "root_is c K" by auto
  from fails have fe: "first_error (length ds) (item_calls (length (maps s)) ?T) = Some e"
    by (simp add: first_failure_def)
  from first_error_truthy [OF fe] have te: "truthy e" .
  from first_error_fire [OF fe, of "[]"] obtain r where
    "fire_value (length ds) [] (item_calls (length (maps s)) ?T) = Some (e, r)" by blast
  with dependencies_delivery(1) [OF first K', of n]
  have 1: "ICallback K e r \<in> set ?T \<or> (\<exists>rest. ?P = ICallback K e r # rest)" by blast
  have h: "\<forall>i\<in>set ?T. \<forall>j. hands_on i = Some j \<longrightarrow> j \<in> set ?T \<or> (\<exists>rest. ?P = j # rest)"
    using handed_run [of ?N ?N "[IResolve (Name n0) (KTop c)]" s]
    by (simp add: trace_resolve_all still_pending_def stop_resolve_all)
  let ?j1 = "ICallback (KCache n0 b (KTop c)) e Undefined"
  let ?j2 = "ICallback (KTop c) e Undefined"
  from K te have h1: "hands_on (ICallback K e r) = Some ?j1" by auto
  from te have h2: "hands_on ?j1 = Some ?j2" by simp
  have "?j2 \<in> set ?T \<or> (\<exists>j rest. ?P = j # rest \<and> (\<exists>k w. j = ICallback k e w \<and> root_is c k))"
  proof (cases "ICallback K e r \<in> set ?T")
    case False
    with 1 rk show ?thesis by auto
  next
    case True
    with h h1 have 2: "?j1 \<in> set ?T \<or> (\<exists>rest. ?P = ?j1 # rest)" by blast
    show ?thesis
    proof (cases "?j1 \<in> set ?T")
      case False
      with 2 show ?thesis by auto
    next
      case True
      with h h2 have "?j2 \<in> set ?T \<or> (\<exists>rest. ?P = ?j2 # rest)" by blast
      then show ?thesis by auto
    qed
  qed
  have "\<And>j. \<exists>k w. j = ICallback k e w \<and> root_is c k \<Longrightarrow> holds c j = 1" by auto
  from delivery [where P = "\<lambda>j. \<exists>k w. j = ICallback k e w \<and> root_is c k", OF _ this]
    \<open>?j2 \<in> set ?T \<or> (\<exists>j rest. ?P = j # rest \<and> (\<exists>k w. j = ICallback k e w \<and> root_is c k))\<close>
  show ?thesis by simp
qed




text \<open>
  A synchronous factory or a constructor whose resolution is not answered from the
  cache: the first step starts the \<^verbatim>\<open>async.map\<close> over its dependencies, and their
  first failure goes to the caller.
\<close>

lemma starts_map:
  assumes reg: "the_registry s n = Some \<lparr>factory = fac, config = cfg\<rparr>"
      and kind: "fac = ViaCallSync f \<or> fac = ViaCallCtor f \<and> constructible f"
      and miss: "config_singleton cfg \<longrightarrow> (\<forall>w. the_instances s n = Some w \<longrightarrow> \<not> truthy w)"
  shows "\<exists>K. exec (IResolve (Name n) (KTop c)) s =
               Next [IResolve (Names (getDependenciesNames f False)) K] s \<and>
             (K = KCallSync f (KCache n (config_singleton cfg) (KTop c)) \<or>
              K = KCallCtor f (KCache n (config_singleton cfg) (KTop c)))"
  using kind reg miss
  by (auto simp: resolve_def Let_def callSync_def callCtor_def split: option.splits)

lemma failure_delivered:
  assumes reg: "the_registry s n = Some \<lparr>factory = fac, config = cfg\<rparr>"
      and kind: "fac = ViaCallSync f \<or> fac = ViaCallCtor f \<and> constructible f"
      and miss: "config_singleton cfg \<longrightarrow> (\<forall>w. the_instances s n = Some w \<longrightarrow> \<not> truthy w)"
      and fails: "first_failure (length (maps s)) (length (getDependenciesNames f False))
                    (trace_resolve (Suc (Suc m)) (Name n) c s) = Some err"
  shows "\<exists>new. log (state_reached (Suc (Suc m)) (Name n) c s) = log s @ new \<and>
           ((c, err, Undefined) \<in> set new \<and>
            (held c s = 0 \<longrightarrow> received c new = [(c, err, Undefined)]) \<or>
            (\<exists>callback w rest.
               still_pending (Suc (Suc m)) (Name n) c s = ICallback callback err w # rest \<and>
               root_is c callback) \<and>
            (held c s = 0 \<longrightarrow> received c new = []))"
proof -
  from starts_map [OF reg kind miss] obtain K where
    first: "exec (IResolve (Name n) (KTop c)) s =
              Next [IResolve (Names (getDependenciesNames f False)) K] s"
    and K: "K = KCallSync f (KCache n (config_singleton cfg) (KTop c)) \<or>
            K = KCallCtor f (KCache n (config_singleton cfg) (KTop c))"
    by blast
  from dependency_failure_delivered [OF first K fails] obtain new where
    ld: "log (state_reached (Suc (Suc m)) (Name n) c s) = log s @ new \<and>
           ((c, err, Undefined) \<in> set new \<and>
            (held c s = 0 \<longrightarrow> received c new = [(c, err, Undefined)]) \<or>
            (\<exists>j rest. still_pending (Suc (Suc m)) (Name n) c s = j # rest \<and>
                      (\<exists>k w. j = ICallback k err w \<and> root_is c k)) \<and>
            (held c s = 0 \<longrightarrow> received c new = []))" ..
  then have l: "log (state_reached (Suc (Suc m)) (Name n) c s) = log s @ new"
    and d: "(c, err, Undefined) \<in> set new \<and>
            (held c s = 0 \<longrightarrow> received c new = [(c, err, Undefined)]) \<or>
            (\<exists>j rest. still_pending (Suc (Suc m)) (Name n) c s = j # rest \<and>
                      (\<exists>k w. j = ICallback k err w \<and> root_is c k)) \<and>
            (held c s = 0 \<longrightarrow> received c new = [])"
    by simp_all
  from d have "(c, err, Undefined) \<in> set new \<and>
            (held c s = 0 \<longrightarrow> received c new = [(c, err, Undefined)]) \<or>
            (\<exists>callback w rest.
               still_pending (Suc (Suc m)) (Name n) c s = ICallback callback err w # rest \<and>
               root_is c callback) \<and>
            (held c s = 0 \<longrightarrow> received c new = [])"
    by auto
  with l show ?thesis by (intro exI [of _ new]) simp
qed

lemmas example_defs = mixed_names_def mixed_services_def db_ctor_def transient_def
  counting_from_def later_factory_def one_stream_def as_stream_def three_services_def
  file_stream_factory_def broken_streams_def needs_missing_def missing_dependency_def
  require_sync_def with_settings_def echo_sync_def echo_async_def require_two_params_def
  failing_service_def failing_factory_def

lemmas trace_defs = item_values_def item_calls_def trace_resolve_def first_failure_def
  held_def map_holds_def received_def still_pending_def state_reached_def stop_resolve_def

text \<open>What \<open>item_values\<close> says of the values it returns.\<close>

lemma item_values_meaning:
  assumes "item_values m k T = Some vs"
  shows "length vs = k \<and>
         (\<forall>i<k. \<exists>e. \<not> truthy e \<and>
            filter (\<lambda>ev. fst ev = i) (item_calls m T) = [(i, e, vs ! i)])"
  using assms values_upto_meaning [of "item_calls m T" k vs]
  by (simp add: item_values_def split: if_splits)

section \<open>Lists of names\<close>

text \<open>
  C5. A list of names resolved for a caller, whatever each name is registered as.
  The call is the \<^verbatim>\<open>async.map\<close> number \<open>length (maps s)\<close>, and the callback it hands
  out for index \<open>j\<close> goes to the resolution of the name at index \<open>j\<close>, and to no
  other. Take the run with any amount of fuel, and suppose that in it each name of the
  list resolved successfully, in whatever order. Then the caller's callback has been
  called without an error with the list that has, at each index, the value of the
  name at that index, or, the fuel having run out just there, that call is the next
  one pending; a callback the container did not hold already has received nothing
  else. In particular, when the run has returned or thrown, the caller has received
  that list. For names that are served, from an idle scheduler, every sufficient
  amount of fuel takes the run to its end with exactly that delivery.
\<close>

theorem list_resolution_is_positional:
  assumes each: "item_values (length (maps s)) (length ns)
                   (trace_resolve (Suc n) (Names ns) c s) = Some vs"
  shows "(\<exists>new. log (state_reached (Suc n) (Names ns) c s) = log s @ new \<and>
            ((c, Null, Arr vs) \<in> set new \<and>
             (held c s = 0 \<longrightarrow> received c new = [(c, Null, Arr vs)]) \<or>
             (\<exists>rest. still_pending (Suc n) (Names ns) c s =
                       ICallback (KTop c) Null (Arr vs) # rest) \<and>
             (held c s = 0 \<longrightarrow> received c new = []))) \<and>
         (\<forall>s' x. resolve_and_wait (Suc n) (Names ns) c s = Returned s' \<or>
                 resolve_and_wait (Suc n) (Names ns) c s = Threw x s' \<longrightarrow>
            (\<exists>new. log s' = log s @ new \<and> (c, Null, Arr vs) \<in> set new \<and>
                   (held c s = 0 \<longrightarrow> received c new = [(c, Null, Arr vs)]))) \<and>
         (\<forall>j t. IResolve t (KMapItem (length (maps s)) j) \<in>
                   set (trace_resolve (Suc n) (Names ns) c s) \<longrightarrow>
                 t = Name (ns ! j) \<and> j < length ns) \<and>
         ((\<forall>a\<in>set ns. serves s a (val a)) \<longrightarrow> queue s = [] \<longrightarrow>
            (\<exists>N u. (\<forall>m. resolve_and_wait (N + m) (Names ns) c s = Returned u) \<and>
                    log u = log s @ [(c, Null, Arr (map val ns))]))"
proof -
  have first: "exec (IResolve (Names ns) (KTop c)) s = async_map ns (KTop c) s"
    by (simp add: resolve_def)
  note d = list_delivered [OF first each]
  have 1: "\<exists>new. log (state_reached (Suc n) (Names ns) c s) = log s @ new \<and>
            ((c, Null, Arr vs) \<in> set new \<and>
             (held c s = 0 \<longrightarrow> received c new = [(c, Null, Arr vs)]) \<or>
             (\<exists>rest. still_pending (Suc n) (Names ns) c s =
                       ICallback (KTop c) Null (Arr vs) # rest) \<and>
             (held c s = 0 \<longrightarrow> received c new = []))"
    using d(1) by simp
  have 2: "\<forall>s' x. resolve_and_wait (Suc n) (Names ns) c s = Returned s' \<or>
                 resolve_and_wait (Suc n) (Names ns) c s = Threw x s' \<longrightarrow>
            (\<exists>new. log s' = log s @ new \<and> (c, Null, Arr vs) \<in> set new \<and>
                   (held c s = 0 \<longrightarrow> received c new = [(c, Null, Arr vs)]))"
  proof (intro allI impI)
    fix s' x
    assume "resolve_and_wait (Suc n) (Names ns) c s = Returned s' \<or>
            resolve_and_wait (Suc n) (Names ns) c s = Threw x s'"
    from delivery_ended [OF this d(1)]
    show "\<exists>new. log s' = log s @ new \<and> (c, Null, Arr vs) \<in> set new \<and>
                   (held c s = 0 \<longrightarrow> received c new = [(c, Null, Arr vs)])" .
  qed
  have 3: "(\<forall>a\<in>set ns. serves s a (val a)) \<longrightarrow> queue s = [] \<longrightarrow>
            (\<exists>N u. (\<forall>m. resolve_and_wait (N + m) (Names ns) c s = Returned u) \<and>
                    log u = log s @ [(c, Null, Arr (map val ns))])"
  proof (intro impI)
    assume srv: "\<forall>a\<in>set ns. serves s a (val a)" and idle: "queue s = []"
    from served_list_delivered [OF srv idle, of "Names ns" c]
    show "\<exists>N u. (\<forall>m. resolve_and_wait (N + m) (Names ns) c s = Returned u) \<and>
                    log u = log s @ [(c, Null, Arr (map val ns))]" by simp
  qed
  from 1 2 d(2) 3 show ?thesis by (intro conjI)
qed

theorem list_resolution_is_positional_witness:
  "resolve_and_wait 40 (Names mixed_names) 9 mixed_services =
     Returned (after (resolve_and_wait 40 (Names mixed_names) 9 mixed_services)) \<and>
   item_values (length (maps mixed_services)) (length mixed_names)
     (trace_resolve 40 (Names mixed_names) 9 mixed_services) =
     Some [Inst 41 0, Arr [Obj 2], Obj 5, Num 1] \<and>
   item_calls (length (maps mixed_services))
     (trace_resolve 40 (Names mixed_names) 9 mixed_services) =
     [(0, Null, Inst 41 0), (1, Null, Arr [Obj 2]), (3, Null, Num 1), (2, Null, Obj 5)] \<and>
   held 9 mixed_services = 0 \<and>
   (\<exists>new. log (after (resolve_and_wait 40 (Names mixed_names) 9 mixed_services)) =
            log mixed_services @ new \<and>
          received 9 new = [(9, Null, Arr [Inst 41 0, Arr [Obj 2], Obj 5, Num 1])]) \<and>
   log (after (resolve_and_wait 40 (Names mixed_names) 9 mixed_services)) =
     [(9, Null, Arr [Inst 41 0, Arr [Obj 2], Obj 5, Num 1])] \<and>
   resolve_and_wait 7 (Names mixed_names) 9 mixed_services = OutOfFuel \<and>
   item_values (length (maps mixed_services)) (length mixed_names)
     (trace_resolve 7 (Names mixed_names) 9 mixed_services) = None \<and>
   serves three_services ''a'' (Obj 1) \<and> serves three_services ''b'' (Obj 2) \<and>
   serves three_services ''c'' (Obj 3) \<and> queue three_services = [] \<and>
   item_values (length (maps three_services)) (length [''a'', ''b'', ''c''])
     (trace_resolve 30 (Names [''a'', ''b'', ''c'']) 9 three_services) =
     Some [Obj 1, Obj 2, Obj 3] \<and>
   (\<exists>N u. (\<forall>m. resolve_and_wait (N + m) (Names [''a'', ''b'', ''c'']) 9 three_services =
                   Returned u) \<and>
           log u = [(9, Null, Arr [Obj 1, Obj 2, Obj 3])])"
proof -
  let ?s' = "after (resolve_and_wait 40 (Names mixed_names) 9 mixed_services)"
  have r: "resolve_and_wait 40 (Names mixed_names) 9 mixed_services = Returned ?s'"
    by (simp add: example_defs run_defs reg_defs eval_nat_numeral)
  have v: "item_values (length (maps mixed_services)) (length mixed_names)
     (trace_resolve 40 (Names mixed_names) 9 mixed_services) =
     Some [Inst 41 0, Arr [Obj 2], Obj 5, Num 1]"
    by (simp add: trace_defs example_defs run_defs reg_defs eval_nat_numeral)
  have o: "item_calls (length (maps mixed_services))
     (trace_resolve 40 (Names mixed_names) 9 mixed_services) =
     [(0, Null, Inst 41 0), (1, Null, Arr [Obj 2]), (3, Null, Num 1), (2, Null, Obj 5)]"
    by (simp add: trace_defs example_defs run_defs reg_defs eval_nat_numeral)
  have h: "held 9 mixed_services = 0"
    by (simp add: trace_defs example_defs run_defs reg_defs)
  have l: "log ?s' = [(9, Null, Arr [Inst 41 0, Arr [Obj 2], Obj 5, Num 1])]"
    by (simp add: example_defs run_defs reg_defs eval_nat_numeral)
  have r7: "resolve_and_wait 7 (Names mixed_names) 9 mixed_services = OutOfFuel"
    by (simp add: example_defs run_defs reg_defs eval_nat_numeral)
  have v7: "item_values (length (maps mixed_services)) (length mixed_names)
     (trace_resolve 7 (Names mixed_names) 9 mixed_services) = None"
    by (simp add: trace_defs example_defs run_defs reg_defs eval_nat_numeral)
  have f40: "(40 :: nat) = Suc 39" by simp
  from list_resolution_is_positional
    [where n = 39 and val = "\<lambda>a. Undefined", OF v [unfolded f40],
     THEN conjunct2, THEN conjunct1, folded f40, rule_format, of ?s' Undefined] r h
  have 1: "\<exists>new. log ?s' = log mixed_services @ new \<and>
          received 9 new = [(9, Null, Arr [Inst 41 0, Arr [Obj 2], Obj 5, Num 1])]"
    by auto
  have a: "serves three_services ''a'' (Obj 1)"
    by (rule served_later_factory [where f = 11 and d = 2])
       (simp_all add: three_services_def accepted_def reg_defs later_factory_def)
  have b: "serves three_services ''b'' (Obj 2)"
    by (rule served_later_factory [where f = 12 and d = 1])
       (simp_all add: three_services_def accepted_def reg_defs later_factory_def)
  have c: "serves three_services ''c'' (Obj 3)"
    by (rule served_later_factory [where f = 13 and d = 0])
       (simp_all add: three_services_def accepted_def reg_defs later_factory_def)
  have q: "queue three_services = []" and l3: "log three_services = []"
    by (simp_all add: three_services_def accepted_def reg_defs later_factory_def)
  have s: "\<forall>n\<in>set [''a'', ''b'', ''c'']. serves three_services n (three_values n)"
    using a b c by (simp add: three_values_def)
  have v3: "item_values (length (maps three_services)) (length [''a'', ''b'', ''c''])
     (trace_resolve 30 (Names [''a'', ''b'', ''c'']) 9 three_services) =
     Some [Obj 1, Obj 2, Obj 3]"
    by (simp add: trace_defs example_defs run_defs reg_defs eval_nat_numeral)
  have f30: "(30 :: nat) = Suc 29" by simp
  from list_resolution_is_positional
    [where n = 29 and val = three_values, OF v3 [unfolded f30],
     THEN conjunct2, THEN conjunct2, THEN conjunct2, folded f30] s q
  obtain N u where
    "\<forall>m. resolve_and_wait (N + m) (Names [''a'', ''b'', ''c'']) 9 three_services = Returned u"
    "log u = log three_services @ [(9, Null, Arr (map three_values [''a'', ''b'', ''c'']))]"
    by blast
  with l3 have 2: "\<exists>N u. (\<forall>m. resolve_and_wait (N + m) (Names [''a'', ''b'', ''c'']) 9
                   three_services = Returned u) \<and>
           log u = [(9, Null, Arr [Obj 1, Obj 2, Obj 3])]"
    by (auto simp: three_values_def)
  from r v o h 1 l r7 v7 a b c q v3 2 show ?thesis by (intro conjI)
qed

section \<open>Interfaces\<close>

text \<open>
  C6 as it is stated fails. An interface name with registered implementations does
  not always resolve to the list of their values: \<^verbatim>\<open>file_stream\<close> needs \<^verbatim>\<open>settings\<close>,
  which is not registered, so its resolution fails, and the caller of
  \<^verbatim>\<open>resolve('loggerStream', cb)\<close> receives that error, along with the results stored
  so far.
\<close>

theorem failing_implementation_gives_an_error:
  "the_registry broken_streams ''loggerStream'' = None \<and>
   the_interfaces broken_streams ''loggerStream'' = Some [''stdout_stream'', ''file_stream''] \<and>
   the_registry broken_streams ''settings'' = None \<and>
   log (after (resolve_and_wait 30 (Name ''loggerStream'') 9 broken_streams)) =
     [(9, Error ''unknown service or interface settings'', Arr [Obj 2, Undefined])]"
  by (simp add: example_defs run_defs reg_defs eval_nat_numeral)

text \<open>
  C6, as the code has it. A name that is not in the registry and has a non-empty
  sequence of implementations in the interface index is resolved exactly as the list
  of its implementations is, with the same outcome whatever the fuel: by the
  \<^verbatim>\<open>async.map\<close> number \<open>length (maps s)\<close>, whose callback for index \<open>j\<close> goes to the
  resolution of the implementation at index \<open>j\<close>. Take the run with any amount of
  fuel, and suppose that in it each implementation resolved successfully. Then the
  caller's callback has been called without an error with the list of their values
  in the order of the sequence, a list also when there is one implementation, or,
  the fuel having run out just there, that call is the next one pending; a callback
  the container did not hold already has received nothing else. In particular, when
  the run has returned or thrown, the caller has received that list. For
  implementations that are served, from an idle scheduler, every sufficient amount
  of fuel takes the run to its end with exactly that delivery. The sequence is in
  registration order: whatever a registration stores for a name, it appends the name
  to the sequence once for each time its options list the interface, and each of the
  four operations, when it accepts, stores in that way.
\<close>

theorem interface_resolves_to_list:
  assumes reg: "the_registry s i = None" and ifc: "the_interfaces s i = Some impls"
      and ne: "impls \<noteq> []"
      and each: "item_values (length (maps s)) (length impls)
                   (trace_resolve (Suc n) (Name i) c s) = Some vs"
  shows "(\<forall>m. resolve_and_wait m (Name i) c s = resolve_and_wait m (Names impls) c s) \<and>
         (\<exists>new. log (state_reached (Suc n) (Name i) c s) = log s @ new \<and>
            ((c, Null, Arr vs) \<in> set new \<and>
             (held c s = 0 \<longrightarrow> received c new = [(c, Null, Arr vs)]) \<or>
             (\<exists>rest. still_pending (Suc n) (Name i) c s =
                       ICallback (KTop c) Null (Arr vs) # rest) \<and>
             (held c s = 0 \<longrightarrow> received c new = []))) \<and>
         (\<forall>s' x. resolve_and_wait (Suc n) (Name i) c s = Returned s' \<or>
                 resolve_and_wait (Suc n) (Name i) c s = Threw x s' \<longrightarrow>
            (\<exists>new. log s' = log s @ new \<and> (c, Null, Arr vs) \<in> set new \<and>
                   (held c s = 0 \<longrightarrow> received c new = [(c, Null, Arr vs)]))) \<and>
         (\<forall>j t. IResolve t (KMapItem (length (maps s)) j) \<in>
                   set (trace_resolve (Suc n) (Name i) c s) \<longrightarrow>
                 t = Name (impls ! j) \<and> j < length impls) \<and>
         ((\<forall>a\<in>set impls. serves s a (val a)) \<longrightarrow> queue s = [] \<longrightarrow>
            (\<exists>N u. (\<forall>m. resolve_and_wait (N + m) (Name i) c s = Returned u) \<and>
                    log u = log s @ [(c, Null, Arr (map val impls))])) \<and>
         (\<forall>nm fac cfg. the_interfaces (store nm fac cfg s) i =
            Some (impls @ replicate
              (count_list (case interfaces cfg of Some is \<Rightarrow> is | None \<Rightarrow> []) i) nm)) \<and>
         (\<forall>nm n1 opts t v f g.
            valid_name nm = Some n1 \<longrightarrow>
              (arity f \<noteq> 0 \<longrightarrow>
                 register nm (Function f) opts t =
                   Inr (store n1 (if arity f = 1 then Direct f else ViaCall f)
                          (xtend default_register_options (given opts)) t)) \<and>
              registerSync nm (Function g) opts t =
                Inr (store n1 (ViaCallSync g) (xtend default_register_options (given opts)) t) \<and>
              registerCtor nm (Function g) opts t =
                Inr (store n1 (ViaCallCtor g) (xtend default_register_options (given opts)) t) \<and>
              (v \<noteq> Undefined \<longrightarrow>
                 registerInstance nm v opts t =
                   Inr (store n1 (Instance v) (xtend default_register_options (given opts)) t)))"
proof (intro conjI impI allI)
  fix m
  have "exec (IResolve (Name i) (KTop c)) s = exec (IResolve (Names impls) (KTop c)) s"
    using reg ifc ne by (simp add: resolve_def)
  then show "resolve_and_wait m (Name i) c s = resolve_and_wait m (Names impls) c s"
    by (cases m) (simp_all add: resolve_and_wait_def call_resolve_def)
next
  have first: "exec (IResolve (Name i) (KTop c)) s = async_map impls (KTop c) s"
    using reg ifc ne by (simp add: resolve_def)
  note d = list_delivered [OF first each]
  from d(1)
  show "\<exists>new. log (state_reached (Suc n) (Name i) c s) = log s @ new \<and>
            ((c, Null, Arr vs) \<in> set new \<and>
             (held c s = 0 \<longrightarrow> received c new = [(c, Null, Arr vs)]) \<or>
             (\<exists>rest. still_pending (Suc n) (Name i) c s =
                       ICallback (KTop c) Null (Arr vs) # rest) \<and>
             (held c s = 0 \<longrightarrow> received c new = []))" by simp
  { fix s' x
    assume "resolve_and_wait (Suc n) (Name i) c s = Returned s' \<or>
            resolve_and_wait (Suc n) (Name i) c s = Threw x s'"
    from delivery_ended [OF this d(1)]
    show "\<exists>new. log s' = log s @ new \<and> (c, Null, Arr vs) \<in> set new \<and>
                   (held c s = 0 \<longrightarrow> received c new = [(c, Null, Arr vs)])" . }
  fix j t
  assume "IResolve t (KMapItem (length (maps s)) j) \<in> set (trace_resolve (Suc n) (Name i) c s)"
  with d(2) show "t = Name (impls ! j)" "j < length impls" by blast+
next
  assume srv: "\<forall>a\<in>set impls. serves s a (val a)" and idle: "queue s = []"
  have "exec (IResolve (Name i) (KTop c)) s = exec (IResolve (Names impls) (KTop c)) s"
    using reg ifc ne by (simp add: resolve_def)
  from served_list_delivered [OF srv idle this]
  show "\<exists>N u. (\<forall>m. resolve_and_wait (N + m) (Name i) c s = Returned u) \<and>
                log u = log s @ [(c, Null, Arr (map val impls))]" .
next
  fix nm fac and cfg :: options
  show "the_interfaces (store nm fac cfg s) i =
            Some (impls @ replicate
              (count_list (case interfaces cfg of Some is \<Rightarrow> is | None \<Rightarrow> []) i) nm)"
  proof (cases "interfaces cfg")
    case None
    then show ?thesis using ifc by (simp add: store_def addInterfaceMapping_def)
  next
    case (Some "is")
    from store_interfaces [OF this, of nm fac s i] ifc Some show ?thesis by simp
  qed
next
  fix nm n1 opts t v and f :: afunc and g :: sfunc
  assume v: "valid_name nm = Some n1"
  then show "registerSync nm (Function g) opts t =
                Inr (store n1 (ViaCallSync g) (xtend default_register_options (given opts)) t)"
    "registerCtor nm (Function g) opts t =
                Inr (store n1 (ViaCallCtor g) (xtend default_register_options (given opts)) t)"
    by (simp_all add: registerSync_def registerCtor_def)
  { assume "arity f \<noteq> 0"
    with v show "register nm (Function f) opts t =
                   Inr (store n1 (if arity f = 1 then Direct f else ViaCall f)
                          (xtend default_register_options (given opts)) t)"
      by (simp add: register_def) }
  { assume "v \<noteq> Undefined"
    with v show "registerInstance nm v opts t =
                   Inr (store n1 (Instance v) (xtend default_register_options (given opts)) t)"
      by (simp add: registerInstance_def) }
qed

theorem interface_resolves_to_list_witness:
  "the_registry one_stream ''loggerStream'' = None \<and>
   the_interfaces one_stream ''loggerStream'' = Some [''stdout_stream''] \<and>
   resolve_and_wait 30 (Name ''loggerStream'') 9 one_stream =
     Returned (after (resolve_and_wait 30 (Name ''loggerStream'') 9 one_stream)) \<and>
   item_values (length (maps one_stream)) (length [''stdout_stream''])
     (trace_resolve 30 (Name ''loggerStream'') 9 one_stream) = Some [Obj 2] \<and>
   held 9 one_stream = 0 \<and>
   (\<exists>new. log (after (resolve_and_wait 30 (Name ''loggerStream'') 9 one_stream)) =
            log one_stream @ new \<and>
          received 9 new = [(9, Null, Arr [Obj 2])]) \<and>
   the_interfaces two_streams ''loggerStream'' = Some [''stdout_stream'', ''file_stream''] \<and>
   log (after (resolve_and_wait 30 (Name ''loggerStream'') 9 two_streams)) =
     [(9, Null, Arr [Obj 2, Obj 1])]"
proof -
  let ?s' = "after (resolve_and_wait 30 (Name ''loggerStream'') 9 one_stream)"
  have r: "the_registry one_stream ''loggerStream'' = None"
    by (simp add: one_stream_def as_stream_def accepted_def reg_defs)
  have i: "the_interfaces one_stream ''loggerStream'' = Some [''stdout_stream'']"
    by (simp add: one_stream_def as_stream_def accepted_def reg_defs)
  have ne: "[''stdout_stream''] \<noteq> []" by simp
  have run: "resolve_and_wait 30 (Name ''loggerStream'') 9 one_stream = Returned ?s'"
    by (simp add: example_defs run_defs reg_defs eval_nat_numeral)
  have v: "item_values (length (maps one_stream)) (length [''stdout_stream''])
     (trace_resolve 30 (Name ''loggerStream'') 9 one_stream) = Some [Obj 2]"
    by (simp add: trace_defs example_defs run_defs reg_defs eval_nat_numeral)
  have h: "held 9 one_stream = 0"
    by (simp add: trace_defs example_defs run_defs reg_defs)
  have t: "the_interfaces two_streams ''loggerStream'' = Some [''stdout_stream'', ''file_stream'']"
    by (simp add: two_streams_def one_stream_def as_stream_def later_factory_def
          accepted_def reg_defs)
  have e: "log (after (resolve_and_wait 30 (Name ''loggerStream'') 9 two_streams)) =
     [(9, Null, Arr [Obj 2, Obj 1])]"
    by (simp add: two_streams_def one_stream_def as_stream_def later_factory_def
          run_defs reg_defs eval_nat_numeral)
  have f30: "(30 :: nat) = Suc 29" by simp
  from interface_resolves_to_list
    [where n = 29 and val = "\<lambda>a. Undefined", OF r i ne v [unfolded f30],
     THEN conjunct2, THEN conjunct2, THEN conjunct1, folded f30, rule_format,
     of ?s' Undefined] run h
  have "\<exists>new. log ?s' = log one_stream @ new \<and> received 9 new = [(9, Null, Arr [Obj 2])]"
    by auto
  with r i run v h t e show ?thesis by simp
qed

section \<open>Declared dependencies\<close>




section \<open>Exceptions of synchronous factories\<close>

text \<open>
  C2 as it is stated fails. A throwing synchronous factory does not reach the
  callback as an error:
  \<^verbatim>\<open>resolve('broken', cb)\<close> throws to its caller, the callback is never called and
  nothing is left scheduled.
\<close>

theorem throwing_factory_reaches_the_caller:
  "thrown (call_resolve 5 (Name ''broken'') 1 failing_service) = Some (Error ''boom'') \<and>
   log (after (call_resolve 5 (Name ''broken'') 1 failing_service)) = [] \<and>
   queue (after (call_resolve 5 (Name ''broken'') 1 failing_service)) = []"
  by (simp add: failing_service_def failing_factory_def run_defs reg_defs eval_nat_numeral)

text \<open>
  C2, as the code has it. Nothing catches what a factory registered with
  \<^verbatim>\<open>registerSync\<close>, or a constructor registered with \<^verbatim>\<open>registerCtor\<close>, throws. When it
  declares no dependency and no truthy singleton instance is cached, \<^verbatim>\<open>resolve\<close>
  throws that exception to its caller, the completion callback is not called and
  nothing is scheduled. Whatever the dependencies, the turn in which the container
  calls the factory ends with the exception, and the callback is not called; so it
  does with a \<^verbatim>\<open>TypeError\<close> when \<^verbatim>\<open>registerCtor\<close> was given a function that \<^verbatim>\<open>new\<close>
  does not accept. What
  does reach the callback is a failure of the resolution of the dependencies: the
  callbacks of \<^verbatim>\<open>callSync\<close> and \<^verbatim>\<open>callCtor\<close> hand on every error they are called
  with, whatever comes with it. In a run with any amount of fuel in which a
  dependency failed, the first failure among the dependencies has been delivered to
  the caller's callback, or, the fuel having run out on the way there, the call that
  hands it on towards that callback is the next one pending; a callback the
  container did not hold already has received nothing else. In particular, when the
  run has returned or thrown, the caller has received that failure.
\<close>

theorem sync_factory_exception_propagates:
  assumes reg: "the_registry s n = Some \<lparr>factory = fac, config = cfg\<rparr>"
      and kind: "fac = ViaCallSync f \<or> fac = ViaCallCtor f \<and> constructible f"
      and miss: "config_singleton cfg \<longrightarrow> (\<forall>w. the_instances s n = Some w \<longrightarrow> \<not> truthy w)"
  shows "(getDependenciesNames f False = [] \<longrightarrow>
          behave f [] (count_calls (fid f) s) = Throws e \<longrightarrow>
            (\<exists>s'. call_resolve (Suc (Suc (Suc k))) (Name n) c s = Threw e s' \<and>
                   log s' = log s \<and> queue s' = queue s \<and>
                   calls s' = calls s @ [(fid f, [])])) \<and>
         (\<forall>t services callback rest m x.
            behave f (elems services) (count_calls (fid f) t) = Throws x \<longrightarrow>
              run_sync (Suc m) (ICallback (KCallSync f callback) Null services # rest) t =
                Threw x (record_call (fid f) (elems services) t) \<and>
              (constructible f \<longrightarrow>
               run_sync (Suc m) (ICallback (KCallCtor f callback) Null services # rest) t =
                Threw x (record_call (fid f) (elems services) t))) \<and>
         (\<forall>t services callback rest m.
            \<not> constructible f \<longrightarrow>
              run_sync (Suc m) (ICallback (KCallCtor f callback) Null services # rest) t =
                Threw not_a_constructor t) \<and>
         (\<forall>err v t callback. truthy err \<longrightarrow>
            invoke_callback (KCallSync f callback) err v t =
              Next [ICallback callback err Undefined] t \<and>
            invoke_callback (KCallCtor f callback) err v t =
              Next [ICallback callback err Undefined] t) \<and>
         (\<forall>m err.
            first_failure (length (maps s)) (length (getDependenciesNames f False))
              (trace_resolve (Suc (Suc m)) (Name n) c s) = Some err \<longrightarrow>
              (\<exists>new. log (state_reached (Suc (Suc m)) (Name n) c s) = log s @ new \<and>
                 ((c, err, Undefined) \<in> set new \<and>
                  (held c s = 0 \<longrightarrow> received c new = [(c, err, Undefined)]) \<or>
                  (\<exists>callback w rest.
                     still_pending (Suc (Suc m)) (Name n) c s =
                       ICallback callback err w # rest \<and> root_is c callback) \<and>
                  (held c s = 0 \<longrightarrow> received c new = [])))) \<and>
         (\<forall>fuel u y err.
            (resolve_and_wait fuel (Name n) c s = Returned u \<or>
             resolve_and_wait fuel (Name n) c s = Threw y u) \<longrightarrow>
            first_failure (length (maps s)) (length (getDependenciesNames f False))
              (trace_resolve fuel (Name n) c s) = Some err \<longrightarrow>
              (\<exists>new. log u = log s @ new \<and> (c, err, Undefined) \<in> set new \<and>
                     (held c s = 0 \<longrightarrow> received c new = [(c, err, Undefined)])))"
proof (intro conjI impI allI)
  assume "getDependenciesNames f False = []" "behave f [] (count_calls (fid f) s) = Throws e"
  with reg kind miss
  show "\<exists>s'. call_resolve (Suc (Suc (Suc k))) (Name n) c s = Threw e s' \<and>
               log s' = log s \<and> queue s' = queue s \<and>
               calls s' = calls s @ [(fid f, [])]"
    by (auto simp: call_resolve_def resolve_def Let_def callSync_def callCtor_def async_map_def
          fire_def apply_sync_def construct_def record_call_def count_calls_def
        split: option.splits)
next
  fix t services callback rest m x
  assume "behave f (elems services) (count_calls (fid f) t) = Throws x"
  then show "run_sync (Suc m) (ICallback (KCallSync f callback) Null services # rest) t =
                Threw x (record_call (fid f) (elems services) t)"
    by (simp add: apply_sync_def)
next
  fix t services callback rest m x
  assume "behave f (elems services) (count_calls (fid f) t) = Throws x" "constructible f"
  then show "run_sync (Suc m) (ICallback (KCallCtor f callback) Null services # rest) t =
                Threw x (record_call (fid f) (elems services) t)"
    by (simp add: construct_def)
next
  fix t services callback rest m
  assume "\<not> constructible f"
  then show "run_sync (Suc m) (ICallback (KCallCtor f callback) Null services # rest) t =
                Threw not_a_constructor t"
    by (simp add: construct_def)
next
  fix err :: jsval and v t callback assume "truthy err"
  then show "invoke_callback (KCallSync f callback) err v t =
              Next [ICallback callback err Undefined] t"
    "invoke_callback (KCallCtor f callback) err v t =
              Next [ICallback callback err Undefined] t"
    by simp_all
next
  fix m err
  assume fails: "first_failure (length (maps s)) (length (getDependenciesNames f False))
                  (trace_resolve (Suc (Suc m)) (Name n) c s) = Some err"
  from failure_delivered [OF reg kind miss fails]
  show "\<exists>new. log (state_reached (Suc (Suc m)) (Name n) c s) = log s @ new \<and>
                 ((c, err, Undefined) \<in> set new \<and>
                  (held c s = 0 \<longrightarrow> received c new = [(c, err, Undefined)]) \<or>
                  (\<exists>callback w rest.
                     still_pending (Suc (Suc m)) (Name n) c s =
                       ICallback callback err w # rest \<and> root_is c callback) \<and>
                  (held c s = 0 \<longrightarrow> received c new = []))" .
next
  fix fuel u y err
  assume run: "resolve_and_wait fuel (Name n) c s = Returned u \<or>
               resolve_and_wait fuel (Name n) c s = Threw y u"
    and fails: "first_failure (length (maps s)) (length (getDependenciesNames f False))
                  (trace_resolve fuel (Name n) c s) = Some err"
  from starts_map [OF reg kind miss] obtain K where
    first: "exec (IResolve (Name n) (KTop c)) s =
              Next [IResolve (Names (getDependenciesNames f False)) K] s"
    and K: "K = KCallSync f (KCache n (config_singleton cfg) (KTop c)) \<or>
            K = KCallCtor f (KCache n (config_singleton cfg) (KTop c))"
    by blast
  have "\<exists>m. fuel = Suc (Suc m)"
  proof (cases fuel)
    case 0
    with run show ?thesis by (simp add: resolve_and_wait_def call_resolve_def)
  next
    case (Suc a)
    show ?thesis
    proof (cases a)
      case 0
      with Suc run first show ?thesis by (simp add: resolve_and_wait_def call_resolve_def)
    next
      case (Suc m)
      with \<open>fuel = Suc a\<close> show ?thesis by simp
    qed
  qed
  then obtain m where fuel: "fuel = Suc (Suc m)" by blast
  note d = dependency_failure_delivered [OF first K fails [unfolded fuel]]
  from delivery_ended [OF run [unfolded fuel] d]
  show "\<exists>new. log u = log s @ new \<and> (c, err, Undefined) \<in> set new \<and>
                     (held c s = 0 \<longrightarrow> received c new = [(c, err, Undefined)])" .
qed

theorem sync_factory_exception_propagates_witness:
  "the_registry failing_service ''broken'' =
     Some \<lparr>factory = ViaCallSync failing_factory,
           config = \<lparr>singleton = Some True, interfaces = None\<rparr>\<rparr> \<and>
   getDependenciesNames failing_factory False = [] \<and>
   the_instances failing_service ''broken'' = None \<and>
   behave failing_factory [] (count_calls (fid failing_factory) failing_service) =
     Throws (Error ''boom'') \<and>
   (\<exists>s'. call_resolve (Suc (Suc (Suc 0))) (Name ''broken'') 1 failing_service =
            Threw (Error ''boom'') s' \<and>
          log s' = log failing_service \<and> queue s' = queue failing_service \<and>
          calls s' = calls failing_service @ [(fid failing_factory, [])]) \<and>
   the_registry missing_dependency ''svc'' =
     Some \<lparr>factory = ViaCallSync needs_missing,
           config = \<lparr>singleton = Some True, interfaces = None\<rparr>\<rparr> \<and>
   resolve_and_wait 10 (Name ''svc'') 1 missing_dependency =
     Returned (after (resolve_and_wait 10 (Name ''svc'') 1 missing_dependency)) \<and>
   first_failure (length (maps missing_dependency))
     (length (getDependenciesNames needs_missing False))
     (trace_resolve 10 (Name ''svc'') 1 missing_dependency) =
     Some (Error ''unknown service or interface missing'') \<and>
   held 1 missing_dependency = 0 \<and>
   (\<exists>new. log (after (resolve_and_wait 10 (Name ''svc'') 1 missing_dependency)) =
            log missing_dependency @ new \<and>
          received 1 new = [(1, Error ''unknown service or interface missing'', Undefined)]) \<and>
   calls (after (resolve_and_wait 10 (Name ''svc'') 1 missing_dependency)) = []"
proof -
  let ?u = "after (resolve_and_wait 10 (Name ''svc'') 1 missing_dependency)"
  have r: "the_registry failing_service ''broken'' =
     Some \<lparr>factory = ViaCallSync failing_factory,
           config = \<lparr>singleton = Some True, interfaces = None\<rparr>\<rparr>"
    by (simp add: failing_service_def run_defs reg_defs)
  have d: "getDependenciesNames failing_factory False = []"
    by (simp add: failing_factory_def getDependenciesNames_def)
  have i: "the_instances failing_service ''broken'' = None"
    by (simp add: failing_service_def run_defs reg_defs)
  have b: "behave failing_factory [] (count_calls (fid failing_factory) failing_service) =
     Throws (Error ''boom'')"
    by (simp add: failing_factory_def)
  have r2: "the_registry missing_dependency ''svc'' =
     Some \<lparr>factory = ViaCallSync needs_missing,
           config = \<lparr>singleton = Some True, interfaces = None\<rparr>\<rparr>"
    by (simp add: missing_dependency_def run_defs reg_defs)
  have i2: "the_instances missing_dependency ''svc'' = None"
    by (simp add: missing_dependency_def run_defs reg_defs)
  have run: "resolve_and_wait 10 (Name ''svc'') 1 missing_dependency = Returned ?u"
    by (simp add: example_defs run_defs reg_defs eval_nat_numeral)
  have ff: "first_failure (length (maps missing_dependency))
     (length (getDependenciesNames needs_missing False))
     (trace_resolve 10 (Name ''svc'') 1 missing_dependency) =
     Some (Error ''unknown service or interface missing'')"
    by (simp add: trace_defs example_defs run_defs reg_defs eval_nat_numeral)
  have h: "held 1 missing_dependency = 0"
    by (simp add: trace_defs example_defs run_defs reg_defs)
  have cs: "calls ?u = []"
    by (simp add: example_defs run_defs reg_defs eval_nat_numeral)
  from sync_factory_exception_propagates
    [where f = failing_factory and k = 0 and c = 1 and e = "Error ''boom''",
     OF r disjI1 [OF refl], THEN conjunct1] i d b
  have 1: "\<exists>s'. call_resolve (Suc (Suc (Suc 0))) (Name ''broken'') 1 failing_service =
            Threw (Error ''boom'') s' \<and>
          log s' = log failing_service \<and> queue s' = queue failing_service \<and>
          calls s' = calls failing_service @ [(fid failing_factory, [])]"
    by simp
  from sync_factory_exception_propagates
    [where f = needs_missing and c = 1, OF r2 disjI1 [OF refl],
     THEN conjunct2, THEN conjunct2, THEN conjunct2, THEN conjunct2, THEN conjunct2,
     rule_format, where fuel = 10 and u = ?u and y = Undefined, OF _ disjI1 [OF run] ff] i2 h
  have 2: "\<exists>new. log ?u = log missing_dependency @ new \<and>
          received 1 new = [(1, Error ''unknown service or interface missing'', Undefined)]"
    by auto
  from r d i b 1 r2 run ff h 2 cs show ?thesis by simp
qed

end
